theory Spec2Isabelle
  imports Complex_Main "HOL-Library.Log_Nat"
begin

section \<open>Outcomes of a Go call\<close>

text \<open>
  A Go function either returns or panics at run time (a failed unchecked type assertion,
  a slice expression out of bounds).  A call that loops forever has no outcome at all:
  where that can happen the model is a \<^theory_text>\<open>partial_function\<close> into
  \<open>option\<close>, and \<open>None\<close> is the run that never ends.
\<close>

datatype 'a outcome = Panic | Return 'a

section \<open>Generic helpers\<close>

subsection \<open>ChunkSlice\<close>

text \<open>
  \<^verbatim>\<open>
  func ChunkSlice[T any](slice []T, chunkSize int) [][]T {
      var chunks [][]T
      for i := 0; i < len(slice); i += chunkSize {
          end := i + chunkSize
          if end > len(slice) { end = len(slice) }
          chunks = append(chunks, slice[i:end])
      }
      return chunks
  }
  \<close>
  A slice is a list.  Go's \<open>int\<close> is a two's-complement integer of \<open>bits\<close> bits, \<open>64\<close> or
  \<open>32\<close> with the target: \<open>i\<close>, \<open>end\<close> and \<open>chunkSize\<close> are integers from \<open>-2^(bits-1)\<close> up
  to \<open>2^(bits-1) - 1\<close>, a slice has at most \<open>2^(bits-1) - 1\<close> elements, and the two sums
  \<open>i + chunkSize\<close> wrap around.  The slice expression \<open>slice[i:end]\<close> panics unless
  \<open>0 \<le> i \<le> end \<le> cap(slice)\<close>; after the clamp \<open>end \<le> len(slice) \<le> cap(slice)\<close>, which
  leaves \<open>0 \<le> i \<le> end\<close> to check.
\<close>

definition wrap_int :: "nat \<Rightarrow> int \<Rightarrow> int" where
  "wrap_int bits x = (x + 2 ^ (bits - 1)) mod 2 ^ bits - 2 ^ (bits - 1)"

definition slice_expr :: "'a list \<Rightarrow> int \<Rightarrow> int \<Rightarrow> 'a list" where
  "slice_expr s lo hi = take (nat (hi - lo)) (drop (nat lo) s)"

partial_function (option) ChunkSlice_loop ::
  "nat \<Rightarrow> 'a list \<Rightarrow> int \<Rightarrow> int \<Rightarrow> 'a list list \<Rightarrow> 'a list list outcome option" where
  "ChunkSlice_loop bits slice chunkSize i chunks =
     (if i < int (length slice) then
        (let end0 = wrap_int bits (i + chunkSize);
             end = (if end0 > int (length slice) then int (length slice) else end0)
         in if 0 \<le> i \<and> i \<le> end
            then ChunkSlice_loop bits slice chunkSize (wrap_int bits (i + chunkSize))
                   (chunks @ [slice_expr slice i end])
            else Some Panic)
      else Some (Return chunks))"

definition ChunkSlice :: "nat \<Rightarrow> 'a list \<Rightarrow> int \<Rightarrow> 'a list list outcome option" where
  "ChunkSlice bits slice chunkSize = ChunkSlice_loop bits slice chunkSize 0 []"

subsection \<open>Map and MapDto\<close>

text \<open>
  \<^verbatim>\<open>
  func Map[T, U any](ts []T, f func(T) U) []U {
      us := make([]U, len(ts))
      for i := range ts { us[i] = f(ts[i]) }
      return us
  }
  \<close>
  \<open>make\<close> fills the result with the zero value of \<open>U\<close>, passed here as \<open>zeroU\<close>;
  the loop then stores at each index in turn.
\<close>

definition Map :: "'u \<Rightarrow> 't list \<Rightarrow> ('t \<Rightarrow> 'u) \<Rightarrow> 'u list" where
  "Map zeroU ts f =
     fold (\<lambda>i us. us[i := f (ts ! i)]) [0..<length ts] (replicate (length ts) zeroU)"

section \<open>Floating-point arithmetic of the pagination\<close>

text \<open>
  \<open>FindPagedWithLimit\<close> computes in \<open>float64\<close>: \<open>math.Max(1, float64(pageCfg.Size))\<close>
  and \<open>math.Ceil(float64(elementCount) / float64(minLimit))\<close>.  A finite binary64 value is
  modelled by the rational number it denotes.  An operation yields the exact result
  rounded to the nearest value with a 53-bit significand, ties to the even significand
  (IEEE 754, which Go follows for conversions and arithmetic).  Every value that occurs
  here is \<open>0\<close> or has a magnitude between \<open>2^-63\<close> and \<open>2^63\<close>: no infinity and no NaN
  arises, and the sign of a zero is not observable after the conversion back to an
  integer.  The exponent is bounded below at \<open>-1022\<close> as in binary64 (subnormal numbers);
  overflow to infinity, above \<open>2^1023\<close>, is out of reach of 64-bit operands.
\<close>

definition ilog2 :: "rat \<Rightarrow> int" where
  \<comment> \<open>for \<open>x > 0\<close>: the exponent \<open>e\<close> with \<open>2^e \<le> x < 2^(e+1)\<close>\<close>
  "ilog2 x = (if 1 \<le> x then bitlen \<lfloor>x\<rfloor> - 1 else - bitlen (\<lceil>1 / x\<rceil> - 1))"

definition round_half_even :: "rat \<Rightarrow> int" where
  "round_half_even x =
     (let f = \<lfloor>x\<rfloor>; d = x - of_int f
      in if d < 1 / 2 then f
         else if 1 / 2 < d then f + 1
         else if even f then f else f + 1)"

definition f64_ulp :: "rat \<Rightarrow> rat" where
  "f64_ulp x = 2 powi (max (ilog2 \<bar>x\<bar>) (- 1022) - 52)"

definition f64_round :: "rat \<Rightarrow> rat" where
  "f64_round x =
     (if x = 0 then 0 else of_int (round_half_even (x / f64_ulp x)) * f64_ulp x)"

definition f64_of_int :: "int \<Rightarrow> rat" where
  \<comment> \<open>the conversion \<open>float64(n)\<close>\<close>
  "f64_of_int n = f64_round (of_int n)"

definition f64_div :: "rat \<Rightarrow> rat \<Rightarrow> rat" where
  \<comment> \<open>\<open>a / b\<close> for \<open>b \<noteq> 0\<close>\<close>
  "f64_div a b = f64_round (a / b)"

definition math_Max :: "rat \<Rightarrow> rat \<Rightarrow> rat" where
  "math_Max x y = (if x > y then x else y)"

definition math_Ceil :: "rat \<Rightarrow> rat" where
  "math_Ceil x = of_int \<lceil>x\<rceil>"

text \<open>
  The conversions \<open>int64(f)\<close> and \<open>int(f)\<close> (a 64-bit \<open>int\<close>) drop the fraction.  When
  the truncated value does not fit, Go leaves the result to the implementation: it is the
  parameter \<open>impl\<close>.
\<close>

definition int64_of_f64 :: "(rat \<Rightarrow> int) \<Rightarrow> rat \<Rightarrow> int" where
  "int64_of_f64 impl x =
     (let t = (if 0 \<le> x then \<lfloor>x\<rfloor> else \<lceil>x\<rceil>)
      in if - (2 ^ 63) \<le> t \<and> t < 2 ^ 63 then t else impl x)"

section \<open>The object-relational mapper\<close>

text \<open>
  Modelled from the spec: the \<open>Specification\<close> interface is declared in a file that is
  not at hand; it exposes \<open>GetQuery()\<close>, a query fragment, and \<open>GetValues()\<close>, the ordered
  bound parameter values.
\<close>

record 'a Specification =
  GetQuery :: string
  GetValues :: "'a list"

text \<open>
  The handle \<open>*gorm.DB\<close> of the external library is the statement built so far.  Each
  chain method (\<open>WithContext\<close>, \<open>Where\<close>, \<open>Limit\<close>, \<open>Offset\<close>, \<open>Preload\<close>, \<open>Model\<close>) returns
  the statement extended; successive \<open>Where\<close> conditions are kept in the order of the
  calls and are conjoined by the library.  A handle is a value here: a method that
  uses one handle for two queries, as \<open>FindPagedWithLimit\<close> does with \<open>dbPrewarm\<close>, builds
  both on the same statement.  Whether the library carries the \<open>Model\<close> of the first
  query over to the second is its own affair, and so is what it makes of a negative
  limit or offset: the properties below speak of the values handed to \<open>Limit\<close> and
  \<open>Offset\<close>, of the context and of the conditions.  \<open>'a\<close> is \<open>interface{}\<close>, \<open>'m\<close> the
  model type.
\<close>

datatype ('a, 'm) condition =
    Cond string "'a list"   \<comment> \<open>\<open>Where(query, values...)\<close>\<close>
  | ByModel 'm              \<comment> \<open>\<open>Where(entity)\<close>, query by example with a model\<close>
  | ByAny 'a                \<comment> \<open>\<open>Where(e)\<close>, query by example with any value\<close>

datatype preload = Associations   \<comment> \<open>\<open>clause.Associations\<close>\<close>

record ('ctx, 'a, 'm) DB =
  stmt_context :: "'ctx option"
  stmt_wheres :: "('a, 'm) condition list"
  stmt_limit :: "int option"
  stmt_offset :: "int option"
  stmt_preloads :: "preload list"
  stmt_model :: bool

definition WithContext :: "'ctx \<Rightarrow> ('ctx, 'a, 'm) DB \<Rightarrow> ('ctx, 'a, 'm) DB" where
  "WithContext ctx db = db\<lparr>stmt_context := Some ctx\<rparr>"

definition Where :: "('a, 'm) condition \<Rightarrow> ('ctx, 'a, 'm) DB \<Rightarrow> ('ctx, 'a, 'm) DB" where
  "Where c db = db\<lparr>stmt_wheres := stmt_wheres db @ [c]\<rparr>"

definition Limit :: "int \<Rightarrow> ('ctx, 'a, 'm) DB \<Rightarrow> ('ctx, 'a, 'm) DB" where
  "Limit n db = db\<lparr>stmt_limit := Some n\<rparr>"

definition Offset :: "int \<Rightarrow> ('ctx, 'a, 'm) DB \<Rightarrow> ('ctx, 'a, 'm) DB" where
  "Offset n db = db\<lparr>stmt_offset := Some n\<rparr>"

definition Preload :: "preload \<Rightarrow> ('ctx, 'a, 'm) DB \<Rightarrow> ('ctx, 'a, 'm) DB" where
  "Preload p db = db\<lparr>stmt_preloads := stmt_preloads db @ [p]\<rparr>"

definition Model :: "('ctx, 'a, 'm) DB \<Rightarrow> ('ctx, 'a, 'm) DB" where
  "Model db = db\<lparr>stmt_model := True\<rparr>"

text \<open>
  A finisher (\<open>Create\<close>, \<open>Save\<close>, \<open>Delete\<close>, \<open>First\<close>, \<open>Find\<close>, \<open>Count\<close>) sends the statement to
  the database.  Each repository method returns, next to its Go results, the list of the
  finisher calls it made, in order.
\<close>

datatype ('ctx, 'a, 'm) call =
    CreateCall "('ctx, 'a, 'm) DB" "'a + 'm"
  | SaveCall "('ctx, 'a, 'm) DB" 'm
  | DeleteCall "('ctx, 'a, 'm) DB" 'm "'a option"
  | FirstCall "('ctx, 'a, 'm) DB" "'a option"
  | FindCall "('ctx, 'a, 'm) DB"
  | CountCall "('ctx, 'a, 'm) DB"

text \<open>
  What the database answers is not in the hands of this code: the answers are the fields
  of \<open>gorm\<close>, arbitrary functions of the call.  \<open>Inl\<close> is the \<open>Error\<close> of the returned
  handle; \<open>Create\<close> and \<open>Save\<close> of a model answer the model as the database filled it in.
  \<open>Find\<close> and \<open>Count\<close> write through the pointer they are given and report the error
  beside it: their answer is the pair of what the destination holds afterwards and the
  error, \<open>None\<close> for \<open>nil\<close>.
\<close>

record ('ctx, 'a, 'm, 'err) gorm =
  do_Create :: "('ctx, 'a, 'm) DB \<Rightarrow> 'm \<Rightarrow> 'err + 'm"
  do_CreateAny :: "('ctx, 'a, 'm) DB \<Rightarrow> 'a \<Rightarrow> 'err option"
  do_Save :: "('ctx, 'a, 'm) DB \<Rightarrow> 'm \<Rightarrow> 'err + 'm"
  do_Delete :: "('ctx, 'a, 'm) DB \<Rightarrow> 'm \<Rightarrow> 'a option \<Rightarrow> 'err option"
  do_First :: "('ctx, 'a, 'm) DB \<Rightarrow> 'a option \<Rightarrow> 'err + 'm"
  do_Find :: "('ctx, 'a, 'm) DB \<Rightarrow> 'm list \<times> 'err option"
  do_Count :: "('ctx, 'a, 'm) DB \<Rightarrow> int \<times> 'err option"

section \<open>The generic repository\<close>

text \<open>
  \<open>GormModel[E]\<close> is the pair of conversions of a model type.  \<open>FromEntity\<close> returns an
  \<open>interface{}\<close>; the type assertion \<open>.(M)\<close> on it is \<open>assertM\<close>, \<open>None\<close> when the dynamic
  type is not \<open>M\<close>.  \<open>zeroM\<close> and \<open>zeroE\<close> are the zero values \<open>*new(M)\<close> and \<open>*new(E)\<close>.
\<close>

record ('a, 'm, 'e) GormModel =
  ToEntity :: "'m \<Rightarrow> 'e"
  FromEntity :: "'e \<Rightarrow> 'a"
  assertM :: "'a \<Rightarrow> 'm option"
  zeroM :: 'm
  zeroE :: 'e

text \<open>
  \<^verbatim>\<open>
  func MapDto[M GormModel[E], E any, T any](modelArray []M, dtoType T) []T {
      return Map(modelArray, func(ce M) T {
          et := ce.ToEntity()
          etCasted, ok := any(et).(T)
          if !ok { return *new(T) }
          return etCasted
      })
  }
  \<close>
  The checked type assertion \<open>any(et).(T)\<close> is a partial function \<open>assertT\<close> from entities
  to \<open>T\<close>: \<open>None\<close> is \<open>ok == false\<close>.  \<open>*new(T)\<close> is the zero value \<open>zeroT\<close>.  The
  argument \<open>dtoType\<close> only fixes the type parameter and is never read.  The second
  source file holds an earlier \<open>MapDto\<close> of the same shape, which calls \<open>ce.ToDto()\<close>
  where this one calls \<open>ce.ToEntity()\<close>; its \<open>ChunkSlice\<close> and \<open>Map\<close> are the same.
\<close>

definition MapDto_conv :: "('a, 'm, 'e) GormModel \<Rightarrow> ('e \<Rightarrow> 't option) \<Rightarrow> 't \<Rightarrow> 'm \<Rightarrow> 't" where
  "MapDto_conv gm assertT zeroT ce =
     (let et = ToEntity gm ce
      in case assertT et of None \<Rightarrow> zeroT | Some etCasted \<Rightarrow> etCasted)"

definition MapDto ::
  "('a, 'm, 'e) GormModel \<Rightarrow> ('e \<Rightarrow> 't option) \<Rightarrow> 't \<Rightarrow> 'm list \<Rightarrow> 't \<Rightarrow> 't list" where
  "MapDto gm assertT zeroT modelArray dtoType =
     Map zeroT modelArray (MapDto_conv gm assertT zeroT)"

record PageConfig =
  Page :: int
  Size :: int
  IgnoreCount :: bool
  ForceCount :: bool

record 'm PageResult =
  Data :: "'m list"
  Count :: int
  Page :: int

record ('ctx, 'a, 'm, 'e, 'err) GormRepository =
  db :: "('ctx, 'a, 'm) DB"
  orm :: "('ctx, 'a, 'm, 'err) gorm"
  conv :: "('a, 'm, 'e) GormModel"

text \<open>
  A method with results \<open>(x, error)\<close> returns the pair of \<open>x\<close> and the error, \<open>None\<close> for
  \<open>nil\<close>.  A method that writes through its pointer argument \<open>entity *E\<close> also returns
  the entity as it stands after the call.  A \<open>nil\<close> slice and an empty slice are both
  \<open>[]\<close>.  The first component of every result is the list of finisher calls made.
  The parameter \<open>id\<close> of the source is \<open>ident\<close> here.
\<close>

definition Insert ::
  "('ctx, 'a, 'm, 'e, 'err) GormRepository \<Rightarrow> 'ctx \<Rightarrow> 'e
     \<Rightarrow> (('ctx, 'a, 'm) call list \<times> 'e \<times> 'err option) outcome" where
  "Insert r ctx entity =
     (case assertM (conv r) (FromEntity (conv r) entity) of
        None \<Rightarrow> Panic
      | Some model \<Rightarrow>
          (let stmt = WithContext ctx (db r)
           in case do_Create (orm r) stmt model of
                Inl err \<Rightarrow> Return ([CreateCall stmt (Inr model)], entity, Some err)
              | Inr created \<Rightarrow>
                  Return ([CreateCall stmt (Inr model)], ToEntity (conv r) created, None)))"

definition InsertDirect ::
  "('ctx, 'a, 'm, 'e, 'err) GormRepository \<Rightarrow> 'ctx \<Rightarrow> 'm
     \<Rightarrow> ('ctx, 'a, 'm) call list \<times> 'err option" where
  "InsertDirect r ctx entity =
     (let stmt = WithContext ctx (db r)
      in ([CreateCall stmt (Inr entity)],
          case do_Create (orm r) stmt entity of Inl err \<Rightarrow> Some err | Inr _ \<Rightarrow> None))"

definition InsertFromInterface ::
  "('ctx, 'a, 'm, 'e, 'err) GormRepository \<Rightarrow> 'ctx \<Rightarrow> 'a
     \<Rightarrow> ('ctx, 'a, 'm) call list \<times> 'err option" where
  "InsertFromInterface r ctx data =
     (let stmt = WithContext ctx (db r)
      in ([CreateCall stmt (Inl data)], do_CreateAny (orm r) stmt data))"

definition Delete ::
  "('ctx, 'a, 'm, 'e, 'err) GormRepository \<Rightarrow> 'ctx \<Rightarrow> 'e
     \<Rightarrow> (('ctx, 'a, 'm) call list \<times> 'err option) outcome" where
  "Delete r ctx entity =
     (case assertM (conv r) (FromEntity (conv r) entity) of
        None \<Rightarrow> Panic
      | Some model \<Rightarrow>
          (let stmt = WithContext ctx (db r)
           in Return ([DeleteCall stmt model None], do_Delete (orm r) stmt model None)))"

definition DeleteById ::
  "('ctx, 'a, 'm, 'e, 'err) GormRepository \<Rightarrow> 'ctx \<Rightarrow> 'a
     \<Rightarrow> ('ctx, 'a, 'm) call list \<times> 'err option" where
  "DeleteById r ctx ident =
     (let start = zeroM (conv r); stmt = WithContext ctx (db r)
      in ([DeleteCall stmt start (Some ident)], do_Delete (orm r) stmt start (Some ident)))"

definition Update ::
  "('ctx, 'a, 'm, 'e, 'err) GormRepository \<Rightarrow> 'ctx \<Rightarrow> 'e
     \<Rightarrow> (('ctx, 'a, 'm) call list \<times> 'e \<times> 'err option) outcome" where
  "Update r ctx entity =
     (case assertM (conv r) (FromEntity (conv r) entity) of
        None \<Rightarrow> Panic
      | Some model \<Rightarrow>
          (let stmt = WithContext ctx (db r)
           in case do_Save (orm r) stmt model of
                Inl err \<Rightarrow> Return ([SaveCall stmt model], entity, Some err)
              | Inr saved \<Rightarrow> Return ([SaveCall stmt model], ToEntity (conv r) saved, None)))"

definition UpdateDirect ::
  "('ctx, 'a, 'm, 'e, 'err) GormRepository \<Rightarrow> 'ctx \<Rightarrow> 'm
     \<Rightarrow> ('ctx, 'a, 'm) call list \<times> 'err option" where
  "UpdateDirect r ctx entity =
     (let stmt = WithContext ctx (db r)
      in ([SaveCall stmt entity],
          case do_Save (orm r) stmt entity of Inl err \<Rightarrow> Some err | Inr _ \<Rightarrow> None))"

definition FindByID ::
  "('ctx, 'a, 'm, 'e, 'err) GormRepository \<Rightarrow> 'ctx \<Rightarrow> 'a
     \<Rightarrow> ('ctx, 'a, 'm) call list \<times> 'e \<times> 'err option" where
  "FindByID r ctx ident =
     (let stmt = WithContext ctx (db r)
      in case do_First (orm r) stmt (Some ident) of
           Inl err \<Rightarrow> ([FirstCall stmt (Some ident)], zeroE (conv r), Some err)
         | Inr model \<Rightarrow> ([FirstCall stmt (Some ident)], ToEntity (conv r) model, None))"

definition FindByIDWithOptions ::
  "('ctx, 'a, 'm, 'e, 'err) GormRepository \<Rightarrow> 'ctx \<Rightarrow> 'a \<Rightarrow> bool
     \<Rightarrow> ('ctx, 'a, 'm) call list \<times> 'e \<times> 'err option" where
  "FindByIDWithOptions r ctx ident eagerLoad =
     (let stmt = Preload Associations (WithContext ctx (db r))
      in case do_First (orm r) stmt (Some ident) of
           Inl err \<Rightarrow> ([FirstCall stmt (Some ident)], zeroE (conv r), Some err)
         | Inr model \<Rightarrow> ([FirstCall stmt (Some ident)], ToEntity (conv r) model, None))"

definition FindByModel ::
  "('ctx, 'a, 'm, 'e, 'err) GormRepository \<Rightarrow> 'ctx \<Rightarrow> 'm
     \<Rightarrow> ('ctx, 'a, 'm) call list \<times> 'm \<times> 'err option" where
  "FindByModel r ctx entity =
     (let stmt = Where (ByModel entity) (Preload Associations (WithContext ctx (db r)))
      in case do_First (orm r) stmt None of
           Inl err \<Rightarrow> ([FirstCall stmt None], zeroM (conv r), Some err)
         | Inr model \<Rightarrow> ([FirstCall stmt None], model, None))"

definition FindByModelMulti ::
  "('ctx, 'a, 'm, 'e, 'err) GormRepository \<Rightarrow> 'ctx \<Rightarrow> 'm
     \<Rightarrow> ('ctx, 'a, 'm) call list \<times> 'm list \<times> 'err option" where
  "FindByModelMulti r ctx entity =
     (let stmt = Where (ByModel entity) (db r)
      in case do_Find (orm r) stmt of
           (models, Some err) \<Rightarrow> ([FindCall stmt], [], Some err)
         | (models, None) \<Rightarrow> ([FindCall stmt], models, None))"

text \<open>
  \<^verbatim>\<open>
  func (r *GormRepository[M, E]) getPreWarmDbForSelect(ctx, specification ...Specification) *gorm.DB {
      var dbPrewarm *gorm.DB = r.db.WithContext(ctx)
      for _, s := range specification {
          dbPrewarm = dbPrewarm.Where(s.GetQuery(), s.GetValues()...)
      }
      return dbPrewarm
  }
  \<close>
\<close>

definition getPreWarmDbForSelect ::
  "('ctx, 'a, 'm, 'e, 'err) GormRepository \<Rightarrow> 'ctx \<Rightarrow> 'a Specification list
     \<Rightarrow> ('ctx, 'a, 'm) DB" where
  "getPreWarmDbForSelect r ctx specification =
     fold (\<lambda>s dbPrewarm. Where (Cond (GetQuery s) (GetValues s)) dbPrewarm)
       specification (WithContext ctx (db r))"

definition FindWithLimit ::
  "('ctx, 'a, 'm, 'e, 'err) GormRepository \<Rightarrow> 'ctx \<Rightarrow> int \<Rightarrow> int \<Rightarrow> 'a Specification list
     \<Rightarrow> ('ctx, 'a, 'm) call list \<times> 'e list \<times> 'err option" where
  "FindWithLimit r ctx limit offset specifications =
     (let dbPrewarm = getPreWarmDbForSelect r ctx specifications;
          stmt = Offset offset (Limit limit dbPrewarm)
      in case do_Find (orm r) stmt of
           (models, Some err) \<Rightarrow> ([FindCall stmt], [], Some err)
         | (models, None) \<Rightarrow>
             ([FindCall stmt],
              fold (\<lambda>row result. result @ [ToEntity (conv r) row]) models [], None))"

definition Find ::
  "('ctx, 'a, 'm, 'e, 'err) GormRepository \<Rightarrow> 'ctx \<Rightarrow> 'a Specification list
     \<Rightarrow> ('ctx, 'a, 'm) call list \<times> 'e list \<times> 'err option" where
  "Find r ctx specifications = FindWithLimit r ctx (- 1) (- 1) specifications"

definition FindPaged ::
  "('ctx, 'a, 'm, 'e, 'err) GormRepository \<Rightarrow> 'ctx \<Rightarrow> 'a Specification list
     \<Rightarrow> ('ctx, 'a, 'm) call list \<times> 'e list \<times> 'err option" where
  "FindPaged r ctx specifications = FindWithLimit r ctx (- 1) (- 1) specifications"

definition Count' ::
  "('ctx, 'a, 'm, 'e, 'err) GormRepository \<Rightarrow> 'ctx \<Rightarrow> 'a Specification list
     \<Rightarrow> ('ctx, 'a, 'm) call list \<times> int \<times> 'err option" where
  "Count' r ctx specifications =
     (let stmt = Model (getPreWarmDbForSelect r ctx specifications)
      in case do_Count (orm r) stmt of (i, err) \<Rightarrow> ([CountCall stmt], i, err))"

text \<open>
  \<^verbatim>\<open>
  func (r *GormRepository[M, E]) FindPagedWithLimit(ctx, pageCfg PageConfig,
          specifications ...Specification) (PageResult[M, E], error) {
      var models []M
      dbPrewarm := r.getPreWarmDbForSelect(ctx, specifications...)
      rs := PageResult[M, E]{ Count: 0, Page: pageCfg.Page }
      minLimit := math.Max(1, float64(pageCfg.Size))
      shouldCount := pageCfg.ForceCount || (pageCfg.Page == 0 && !pageCfg.IgnoreCount)
      if shouldCount {
          model := new(M)
          var elementCount int64 = 0
          er := dbPrewarm.Model(model).Count(&elementCount)
          if er.Error != nil { return rs, er.Error }
          rs.Count = int64(math.Ceil(float64(elementCount) / float64(minLimit)))
      }
      err := dbPrewarm.Limit(int(minLimit)).Offset(pageCfg.Page).Find(&models).Error
      if err != nil { return rs, err }
      rs.Data = models
      return rs, nil
  }
  \<close>
  \<open>float64(minLimit)\<close> converts a \<open>float64\<close> to itself.
\<close>

definition shouldCount :: "PageConfig \<Rightarrow> bool" where
  "shouldCount pageCfg =
     (ForceCount pageCfg \<or> (PageConfig.Page pageCfg = 0 \<and> \<not> IgnoreCount pageCfg))"

definition minLimit :: "PageConfig \<Rightarrow> rat" where
  "minLimit pageCfg = math_Max 1 (f64_of_int (Size pageCfg))"

definition FindPagedWithLimit ::
  "(rat \<Rightarrow> int) \<Rightarrow> ('ctx, 'a, 'm, 'e, 'err) GormRepository \<Rightarrow> 'ctx \<Rightarrow> PageConfig
     \<Rightarrow> 'a Specification list \<Rightarrow> ('ctx, 'a, 'm) call list \<times> 'm PageResult \<times> 'err option" where
  "FindPagedWithLimit impl r ctx pageCfg specifications =
     (let dbPrewarm = getPreWarmDbForSelect r ctx specifications;
          rs = \<lparr>Data = [], Count = 0, Page = PageConfig.Page pageCfg\<rparr>;
          counted =
            (if shouldCount pageCfg then
               (case do_Count (orm r) (Model dbPrewarm) of
                  (elementCount, Some err) \<Rightarrow> Inl err
                | (elementCount, None) \<Rightarrow>
                    Inr ([CountCall (Model dbPrewarm)],
                         rs\<lparr>Count := int64_of_f64 impl
                              (math_Ceil (f64_div (f64_of_int elementCount) (minLimit pageCfg)))\<rparr>))
             else Inr ([], rs))
      in case counted of
           Inl err \<Rightarrow> ([CountCall (Model dbPrewarm)], rs, Some err)
         | Inr (calls, rs) \<Rightarrow>
             (let stmt = Offset (PageConfig.Page pageCfg)
                           (Limit (int64_of_f64 impl (minLimit pageCfg)) dbPrewarm)
              in case do_Find (orm r) stmt of
                   (models, Some err) \<Rightarrow> (calls @ [FindCall stmt], rs, Some err)
                 | (models, None) \<Rightarrow>
                     (calls @ [FindCall stmt], rs\<lparr>Data := models\<rparr>, None)))"

definition FindAll ::
  "('ctx, 'a, 'm, 'e, 'err) GormRepository \<Rightarrow> 'ctx
     \<Rightarrow> ('ctx, 'a, 'm) call list \<times> 'e list \<times> 'err option" where
  "FindAll r ctx = FindWithLimit r ctx (- 1) (- 1) []"

definition FromModelToDto :: "('ctx, 'a, 'm, 'e, 'err) GormRepository \<Rightarrow> 'm list \<Rightarrow> 'e list" where
  "FromModelToDto r models =
     (let result = []
      in if length models = 0 then result
         else fold (\<lambda>row result. result @ [ToEntity (conv r) row]) models result)"

definition FindByEntity ::
  "('ctx, 'a, 'm, 'e, 'err) GormRepository \<Rightarrow> 'ctx \<Rightarrow> 'a
     \<Rightarrow> ('ctx, 'a, 'm) call list \<times> 'e list \<times> 'err option" where
  "FindByEntity r ctx e =
     (let stmt = Where (ByAny e) (db r)
      in case do_Find (orm r) stmt of
           (models, err) \<Rightarrow> ([FindCall stmt], FromModelToDto r models, err))"

definition FindByEntityWithOptions ::
  "('ctx, 'a, 'm, 'e, 'err) GormRepository \<Rightarrow> 'ctx \<Rightarrow> 'a \<Rightarrow> bool
     \<Rightarrow> ('ctx, 'a, 'm) call list \<times> 'e list \<times> 'err option" where
  "FindByEntityWithOptions r ctx e eagerLoad =
     (let stmt = Preload Associations (Where (ByAny e) (db r))
      in case do_Find (orm r) stmt of
           (models, err) \<Rightarrow> ([FindCall stmt], FromModelToDto r models, err))"

section \<open>Reading calls and statements\<close>

text \<open>The statement a finisher call was made on.\<close>

fun call_stmt :: "('ctx, 'a, 'm) call \<Rightarrow> ('ctx, 'a, 'm) DB" where
  "call_stmt (CreateCall st _) = st"
| "call_stmt (SaveCall st _) = st"
| "call_stmt (DeleteCall st _ _) = st"
| "call_stmt (FirstCall st _) = st"
| "call_stmt (FindCall st) = st"
| "call_stmt (CountCall st) = st"

text \<open>
  What the library makes of the conditions of a statement: the bound parameter values
  are those of the conditions in their order, and a row is selected when every condition
  holds of it (the conditions of successive \<open>Where\<close> calls are joined by \<open>AND\<close>).  What
  it means for one condition to hold of a row is the database's business: \<open>holds\<close> is
  arbitrary.
\<close>

fun condition_values :: "('a, 'm) condition \<Rightarrow> 'a list" where
  "condition_values (Cond q vs) = vs"
| "condition_values (ByModel m) = []"
| "condition_values (ByAny a) = []"

definition bound_values :: "('ctx, 'a, 'm) DB \<Rightarrow> 'a list" where
  "bound_values st = concat (map condition_values (stmt_wheres st))"

definition selects ::
  "(('a, 'm) condition \<Rightarrow> 'row \<Rightarrow> bool) \<Rightarrow> ('ctx, 'a, 'm) DB \<Rightarrow> 'row \<Rightarrow> bool" where
  "selects holds st row = list_all (\<lambda>c. holds c row) (stmt_wheres st)"

section \<open>An example repository\<close>

text \<open>
  Concrete inputs for the closed theorems below: contexts and errors are strings, models,
  entities and \<open>interface{}\<close> values are natural numbers.  The handle carries no context
  of its own.  The database counts \<open>rows\<close> rows and finds the models \<open>4\<close> and \<open>5\<close>; the
  type assertion to the model type fails from \<open>50\<close> on.
\<close>

definition example_db :: "(string, nat, nat) DB" where
  "example_db = \<lparr>stmt_context = None, stmt_wheres = [], stmt_limit = None,
                  stmt_offset = None, stmt_preloads = [], stmt_model = False\<rparr>"

definition example_orm :: "int \<Rightarrow> (string, nat, nat, string) gorm" where
  "example_orm rows =
     \<lparr>do_Create = (\<lambda>st m. Inr (m + 1)), do_CreateAny = (\<lambda>st a. None),
      do_Save = (\<lambda>st m. Inr m), do_Delete = (\<lambda>st m a. None),
      do_First = (\<lambda>st a. Inr 4), do_Find = (\<lambda>st. ([4, 5], None)),
      do_Count = (\<lambda>st. (rows, None))\<rparr>"

definition example_conv :: "(nat, nat, nat) GormModel" where
  "example_conv =
     \<lparr>ToEntity = (\<lambda>m. m + 100), FromEntity = (\<lambda>e. e - 100),
      assertM = (\<lambda>a. if a < 50 then Some a else None), zeroM = 0, zeroE = 0\<rparr>"

definition example_repo :: "int \<Rightarrow> (string, nat, nat, nat, string) GormRepository" where
  "example_repo rows = \<lparr>db = example_db, orm = example_orm rows, conv = example_conv\<rparr>"

section \<open>Properties of the generic helpers\<close>

subsection \<open>ChunkSlice\<close>

text \<open>A sum within the range of \<open>int\<close> is itself; one just above the range comes out negative.\<close>

lemma pow_bits: "0 < bits \<Longrightarrow> (2::int) ^ bits = 2 * 2 ^ (bits - 1)"
  by (cases bits) simp_all

lemma wrap_int_id:
  assumes "0 < bits" "- (2 ^ (bits - 1)) \<le> x" "x < 2 ^ (bits - 1)"
  shows "wrap_int bits x = x"
proof -
  have "0 \<le> x + 2 ^ (bits - 1)" "x + 2 ^ (bits - 1) < 2 ^ bits"
    using assms pow_bits[OF assms(1)] by simp_all
  then have "(x + 2 ^ (bits - 1)) mod 2 ^ bits = x + 2 ^ (bits - 1)"
    by (rule mod_pos_pos_trivial)
  then show ?thesis by (simp add: wrap_int_def)
qed

lemma wrap_int_over:
  assumes "0 < bits" "2 ^ (bits - 1) \<le> x" "x < 2 ^ bits"
  shows "wrap_int bits x = x - 2 ^ bits"
proof -
  define y where "y = x - 2 ^ (bits - 1)"
  have y: "0 \<le> y" "y < 2 ^ bits" using assms pow_bits[OF assms(1)] by (simp_all add: y_def)
  have "x + 2 ^ (bits - 1) = y + 1 * 2 ^ bits"
    using pow_bits[OF assms(1)] by (simp add: y_def)
  then have "(x + 2 ^ (bits - 1)) mod 2 ^ bits = y mod 2 ^ bits"
    by (simp only: mod_mult_self1)
  also have "\<dots> = y" using y by (rule mod_pos_pos_trivial)
  finally show ?thesis using pow_bits[OF assms(1)] by (simp add: wrap_int_def y_def)
qed

text \<open>
  With a positive chunk size, and as long as no sum \<open>j + chunkSize\<close> at the start \<open>j\<close> of a
  chunk wraps around, the loop started at the start \<open>i\<close> of a chunk returns, and what it
  appends splits the rest of the slice from \<open>i\<close> on.  The induction is on the distance
  \<open>len(slice) - i\<close>, which the step \<open>i += chunkSize\<close> shrinks.
\<close>

lemma ChunkSlice_loop_pos:
  assumes cs: "0 < chunkSize"
    and nowrap: "\<And>j. 0 \<le> j \<Longrightarrow> j < int (length slice) \<Longrightarrow> chunkSize dvd j
                   \<Longrightarrow> wrap_int bits (j + chunkSize) = j + chunkSize"
    and i: "0 \<le> i" "chunkSize dvd i"
  shows "\<exists>new. ChunkSlice_loop bits slice chunkSize i chunks = Some (Return (chunks @ new))
           \<and> concat new = drop (nat i) slice
           \<and> (\<forall>c \<in> set new. 0 < length c \<and> int (length c) \<le> chunkSize)
           \<and> (\<forall>c \<in> set (butlast new). int (length c) = chunkSize)"
  using i
proof (induction "nat (int (length slice) - i)" arbitrary: i chunks rule: less_induct)
  case less
  show ?case
  proof (cases "i < int (length slice)")
    case False
    then have "ChunkSlice_loop bits slice chunkSize i chunks = Some (Return (chunks @ []))"
      by (subst ChunkSlice_loop.simps) simp
    moreover from False less.prems have "drop (nat i) slice = []" by simp
    ultimately show ?thesis by force
  next
    case True
    have w: "wrap_int bits (i + chunkSize) = i + chunkSize"
      using nowrap[OF less.prems(1) True less.prems(2)] .
    define e where "e = (if i + chunkSize > int (length slice) then int (length slice) else i + chunkSize)"
    define c where "c = slice_expr slice i e"
    have ie: "i < e" using True cs by (simp add: e_def)
    have step: "ChunkSlice_loop bits slice chunkSize i chunks
        = ChunkSlice_loop bits slice chunkSize (i + chunkSize) (chunks @ [c])"
      using True ie less.prems
      by (subst ChunkSlice_loop.simps) (simp add: Let_def e_def c_def w)
    have "nat (int (length slice) - (i + chunkSize)) < nat (int (length slice) - i)"
      using True cs by simp
    moreover have "0 \<le> i + chunkSize" using less.prems cs by simp
    moreover have "chunkSize dvd i + chunkSize" using less.prems(2) by simp
    ultimately obtain new where new:
      "ChunkSlice_loop bits slice chunkSize (i + chunkSize) (chunks @ [c])
         = Some (Return ((chunks @ [c]) @ new))"
      "concat new = drop (nat (i + chunkSize)) slice"
      "\<forall>c \<in> set new. 0 < length c \<and> int (length c) \<le> chunkSize"
      "\<forall>c \<in> set (butlast new). int (length c) = chunkSize"
      using less.hyps[of "i + chunkSize" "chunks @ [c]"] by blast
    have lenc: "int (length c) = e - i"
      using True ie less.prems by (auto simp: c_def slice_expr_def e_def split: if_splits)
    have cat: "c @ drop (nat (i + chunkSize)) slice = drop (nat i) slice"
    proof (cases "i + chunkSize > int (length slice)")
      case True
      then show ?thesis using less.prems by (simp add: c_def slice_expr_def e_def)
    next
      case False
      have "nat (i + chunkSize) = nat chunkSize + nat i"
        using less.prems cs by (simp add: nat_add_distrib)
      with False append_take_drop_id[of "nat chunkSize" "drop (nat i) slice"]
      show ?thesis by (simp add: c_def slice_expr_def e_def)
    qed
    have full: "int (length c) = chunkSize" if "new \<noteq> []"
    proof -
      from that new(3) have "concat new \<noteq> []" by (cases new) auto
      with new(2) have "nat (i + chunkSize) < length slice" by simp
      then show ?thesis using lenc by (simp add: e_def)
    qed
    have "ChunkSlice_loop bits slice chunkSize i chunks = Some (Return (chunks @ (c # new)))"
      using step new(1) by simp
    moreover have "concat (c # new) = drop (nat i) slice" using new(2) cat by simp
    moreover have "\<forall>x \<in> set (c # new). 0 < length x \<and> int (length x) \<le> chunkSize"
      using new(3) lenc ie by (auto simp: e_def split: if_splits)
    moreover have "\<forall>x \<in> set (butlast (c # new)). int (length x) = chunkSize"
      using new(4) full by auto
    ultimately show ?thesis by blast
  qed
qed

text \<open>The chunks start at the multiples of \<open>chunkSize\<close> below \<open>len(slice)\<close>; this is the last.\<close>

lemma last_start_bound:
  fixes chunkSize j len :: int
  assumes "0 < chunkSize" "0 \<le> j" "j < len" "chunkSize dvd j"
  shows "j \<le> (len - 1) div chunkSize * chunkSize"
proof -
  from assms(4) obtain k where k: "j = chunkSize * k" ..
  have "chunkSize \<noteq> 0" using assms(1) by simp
  then have "k = j div chunkSize" unfolding k by (rule nonzero_mult_div_cancel_left[symmetric])
  also have "\<dots> \<le> (len - 1) div chunkSize"
    using assms by (intro zdiv_mono1) simp_all
  finally have "k * chunkSize \<le> (len - 1) div chunkSize * chunkSize"
    using assms(1) by (intro mult_right_mono) simp_all
  then show ?thesis by (simp add: k mult.commute)
qed

text \<open>
  With \<open>chunkSize \<ge> 1\<close> every run ends: a sum that does not wrap moves the index up, and
  a sum that wraps is negative, so that the slice expression panics.
\<close>

lemma ChunkSlice_loop_halts:
  assumes bits: "0 < bits" and cs: "1 \<le> chunkSize" "chunkSize < 2 ^ (bits - 1)"
    and len: "int (length slice) < 2 ^ (bits - 1)" and i: "0 \<le> i"
  shows "\<exists>out. ChunkSlice_loop bits slice chunkSize i chunks = Some out"
  using i
proof (induction "nat (int (length slice) - i)" arbitrary: i chunks rule: less_induct)
  case less
  show ?case
  proof (cases "i < int (length slice)")
    case False
    then show ?thesis by (subst ChunkSlice_loop.simps) simp
  next
    case True
    show ?thesis
    proof (cases "i + chunkSize < 2 ^ (bits - 1)")
      case nowrap: True
      have w: "wrap_int bits (i + chunkSize) = i + chunkSize"
        using less.prems cs nowrap by (intro wrap_int_id[OF bits]) simp_all
      have "nat (int (length slice) - (i + chunkSize)) < nat (int (length slice) - i)"
        using True cs by simp
      moreover have "0 \<le> i + chunkSize" using less.prems cs by simp
      ultimately have "\<exists>out. ChunkSlice_loop bits slice chunkSize (i + chunkSize) ch = Some out"
        for ch using less.hyps[of "i + chunkSize" ch] by blast
      then show ?thesis
        using True less.prems cs
        by (subst ChunkSlice_loop.simps) (simp add: Let_def w)
    next
      case False
      have "i + chunkSize < 2 ^ bits" using True len cs pow_bits[OF bits] by linarith
      with False have w: "wrap_int bits (i + chunkSize) = i + chunkSize - 2 ^ bits"
        by (intro wrap_int_over[OF bits]) simp_all
      have neg: "i + chunkSize - 2 ^ bits < 0" using \<open>i + chunkSize < 2 ^ bits\<close> by simp
      show ?thesis
        using True less.prems neg
        by (subst ChunkSlice_loop.simps) (simp add: Let_def w)
    qed
  qed
qed

text \<open>
  With \<open>chunkSize = 0\<close> the index never moves: no run that starts below \<open>len(slice)\<close>
  has an outcome.  Fixpoint induction over the loop.
\<close>

lemma ChunkSlice_loop_zero:
  assumes "ChunkSlice_loop bits slice chunkSize i chunks = Some r"
  shows "\<not> (0 < bits \<and> chunkSize = 0 \<and> 0 \<le> i \<and> i < int (length slice)
            \<and> int (length slice) \<le> 2 ^ (bits - 1))"
proof (rule ChunkSlice_loop.raw_induct
    [where P = "\<lambda>b s cs j ch y. \<not> (0 < b \<and> cs = 0 \<and> 0 \<le> j \<and> j < int (length s)
                                    \<and> int (length s) \<le> 2 ^ (b - 1))", OF _ assms])
  fix loop :: "nat \<Rightarrow> 'a list \<Rightarrow> int \<Rightarrow> int \<Rightarrow> 'a list list \<Rightarrow> 'a list list outcome option"
  fix b :: nat and s :: "'a list" and cs j :: int and ch :: "'a list list" and y
  assume IH: "\<And>b s cs j ch y. loop b s cs j ch = Some y
      \<Longrightarrow> \<not> (0 < b \<and> cs = 0 \<and> 0 \<le> j \<and> j < int (length s) \<and> int (length s) \<le> 2 ^ (b - 1))"
  assume body: "(if j < int (length s)
      then let end0 = wrap_int b (j + cs);
               end = if int (length s) < end0 then int (length s) else end0
           in if 0 \<le> j \<and> j \<le> end
              then loop b s cs (wrap_int b (j + cs)) (ch @ [slice_expr s j end])
              else Some Panic
      else Some (Return ch)) = Some y"
  show "\<not> (0 < b \<and> cs = 0 \<and> 0 \<le> j \<and> j < int (length s) \<and> int (length s) \<le> 2 ^ (b - 1))"
  proof
    assume a: "0 < b \<and> cs = 0 \<and> 0 \<le> j \<and> j < int (length s) \<and> int (length s) \<le> 2 ^ (b - 1)"
    then have "0 < b" "- (2 ^ (b - 1)) \<le> j" "j < 2 ^ (b - 1)"
      by (simp, smt (verit) zero_le_power, linarith)
    then have w: "wrap_int b j = j" by (rule wrap_int_id)
    with body a have "loop b s cs j (ch @ [slice_expr s j j]) = Some y"
      by (simp add: Let_def)
    from IH[OF this] a show False by simp
  qed
qed

text \<open>
  On a 64-bit target, a slice of \<open>2^63 - 1\<close> elements cut with \<open>chunkSize = 2^62 + 1\<close>: the
  second \<open>end\<close> is \<open>2^63 + 2\<close>, which wraps to a negative number.
\<close>

lemma ChunkSlice_wraps:
  assumes l: "int (length slice) = 2 ^ 63 - 1"
  shows "ChunkSlice 64 slice (2 ^ 62 + 1) = Some Panic"
proof -
  have w1: "wrap_int 64 4611686018427387905 = 4611686018427387905"
    by (simp add: wrap_int_def)
  have w2: "wrap_int 64 9223372036854775810 = - 9223372036854775806"
    by (simp add: wrap_int_def)
  have second: "ChunkSlice_loop 64 slice (2 ^ 62 + 1) (2 ^ 62 + 1) ch = Some Panic" for ch
    by (subst ChunkSlice_loop.simps) (simp add: l w2 Let_def)
  have first: "ChunkSlice_loop 64 slice (2 ^ 62 + 1) 0 []
      = ChunkSlice_loop 64 slice (2 ^ 62 + 1) (2 ^ 62 + 1)
          ([] @ [slice_expr slice 0 (2 ^ 62 + 1)])"
    by (subst ChunkSlice_loop.simps) (simp add: l w1 Let_def)
  show ?thesis unfolding ChunkSlice_def first by (rule second)
qed

text \<open>
  \<^bold>\<open>C5, as stated, fails.\<close>  Go allows a slice of \<open>2^63 - 1\<close> elements of a type of size
  zero, such as \<open>struct{}\<close>.  With \<open>chunkSize = 2^62 + 1\<close> ChunkSlice appends one chunk and
  then panics at \<open>slice[i:end]\<close>, where the claim has it return the partition.
\<close>

theorem ChunkSlice_partition_counterexample:
  "replicate (2 ^ 63 - 1) () \<noteq> [] \<and> (0 :: int) < 2 ^ 62 + 1
   \<and> int (length (replicate (2 ^ 63 - 1) ())) = 2 ^ 63 - 1
   \<and> ChunkSlice 64 (replicate (2 ^ 63 - 1) ()) (2 ^ 62 + 1) = Some Panic"
proof -
  have l: "int (length (replicate (2 ^ 63 - 1) ())) = 2 ^ 63 - 1"
    by (simp only: length_replicate) simp
  have ne: "replicate (2 ^ 63 - 1) () \<noteq> []"
  proof
    assume "replicate (2 ^ 63 - 1) () = []"
    then have "int (length (replicate (2 ^ 63 - 1) ())) = 0" by (simp only: list.size of_nat_0)
    with l show False by simp
  qed
  have "(0 :: int) < 2 ^ 62 + 1" by simp
  with l ne ChunkSlice_wraps[OF l] show ?thesis by (intro conjI)
qed

text \<open>
  \<^bold>\<open>C5, amended.\<close>  For every non-empty slice and every positive chunk size such that
  the start of the last chunk plus the chunk size,
  \<open>((len(slice) - 1) div chunkSize) * chunkSize + chunkSize\<close>, is below \<open>2^(bits-1)\<close> for
  an \<open>int\<close> of \<open>bits\<close> bits, ChunkSlice returns chunks whose concatenation is the input
  slice (so they are contiguous and keep the order), every chunk is at most \<open>chunkSize\<close>
  long, and every chunk but the last is exactly \<open>chunkSize\<close> long.  No chunk is empty.
\<close>

theorem ChunkSlice_partition:
  assumes "slice \<noteq> []" and "0 < chunkSize" and "0 < bits"
    and "(int (length slice) - 1) div chunkSize * chunkSize + chunkSize < 2 ^ (bits - 1)"
  shows "\<exists>chunks. ChunkSlice bits slice chunkSize = Some (Return chunks)
           \<and> concat chunks = slice
           \<and> (\<forall>c \<in> set chunks. int (length c) \<le> chunkSize)
           \<and> (\<forall>c \<in> set (butlast chunks). int (length c) = chunkSize)
           \<and> [] \<notin> set chunks"
proof -
  have nowrap: "wrap_int bits (j + chunkSize) = j + chunkSize"
    if "0 \<le> j" "j < int (length slice)" "chunkSize dvd j" for j
  proof -
    have "j \<le> (int (length slice) - 1) div chunkSize * chunkSize"
      using assms(2) that by (rule last_start_bound)
    with assms(4) have "j + chunkSize < 2 ^ (bits - 1)" by linarith
    moreover have "- (2 ^ (bits - 1)) \<le> j + chunkSize"
      using that(1) assms(2) by (smt (verit) zero_le_power)
    ultimately show ?thesis using assms(3) by (intro wrap_int_id)
  qed
  have "\<exists>new. ChunkSlice_loop bits slice chunkSize 0 [] = Some (Return ([] @ new))
           \<and> concat new = drop (nat 0) slice
           \<and> (\<forall>c \<in> set new. 0 < length c \<and> int (length c) \<le> chunkSize)
           \<and> (\<forall>c \<in> set (butlast new). int (length c) = chunkSize)"
  proof (rule ChunkSlice_loop_pos)
    show "0 < chunkSize" by fact
    show "wrap_int bits (j + chunkSize) = j + chunkSize"
      if "0 \<le> j" "j < int (length slice)" "chunkSize dvd j" for j
      using that by (rule nowrap)
    show "0 \<le> (0::int)" by simp
    show "chunkSize dvd 0" by simp
  qed
  then obtain new where new:
    "ChunkSlice_loop bits slice chunkSize 0 [] = Some (Return ([] @ new))"
    "concat new = drop (nat 0) slice"
    "\<forall>c \<in> set new. 0 < length c \<and> int (length c) \<le> chunkSize"
    "\<forall>c \<in> set (butlast new). int (length c) = chunkSize"
    by blast
  from new(3) have "[] \<notin> set new" by auto
  with new show ?thesis by (auto simp: ChunkSlice_def)
qed

theorem ChunkSlice_partition_witness:
  "[1, 2, 3 :: nat] \<noteq> [] \<and> (0 :: int) < 2 \<and> (0 :: nat) < 64
   \<and> (int (length [1, 2, 3 :: nat]) - 1) div 2 * 2 + 2 < 2 ^ (64 - 1)
   \<and> ChunkSlice 64 [1, 2, 3 :: nat] 2 = Some (Return [[1, 2], [3]])
   \<and> (\<exists>chunks. ChunkSlice 64 [1, 2, 3 :: nat] 2 = Some (Return chunks)
           \<and> concat chunks = [1, 2, 3]
           \<and> (\<forall>c \<in> set chunks. int (length c) \<le> 2)
           \<and> (\<forall>c \<in> set (butlast chunks). int (length c) = 2)
           \<and> [] \<notin> set chunks)"
proof -
  have h: "[1, 2, 3 :: nat] \<noteq> []" "(0 :: int) < 2" "(0 :: nat) < 64"
    "(int (length [1, 2, 3 :: nat]) - 1) div 2 * 2 + 2 < 2 ^ (64 - 1)"
    by simp_all
  have "ChunkSlice 64 [1, 2, 3 :: nat] 2 = Some (Return [[1, 2], [3]])"
    by (simp add: ChunkSlice_def ChunkSlice_loop.simps slice_expr_def wrap_int_def)
  with h ChunkSlice_partition[OF h] show ?thesis by blast
qed

text \<open>
  The condition holds for every chunk size when the slice has at most \<open>2^(bits-2)\<close>
  elements, \<open>2^62\<close> on a 64-bit target.
\<close>

lemma ChunkSlice_no_wrap_small:
  assumes "0 < chunkSize" "chunkSize < 2 ^ (bits - 1)" "2 \<le> bits"
    and "0 < len" "len \<le> 2 ^ (bits - 2)"
  shows "(len - 1) div chunkSize * chunkSize + chunkSize < (2::int) ^ (bits - 1)"
proof (cases "len \<le> chunkSize")
  case True
  then have "(len - 1) div chunkSize = 0" using assms(1,4) by (simp add: div_pos_pos_trivial)
  then show ?thesis using assms(2) by simp
next
  case False
  have "len - 1 = (len - 1) div chunkSize * chunkSize + (len - 1) mod chunkSize" by simp
  moreover have "0 \<le> (len - 1) mod chunkSize" using assms(1) by simp
  ultimately have "(len - 1) div chunkSize * chunkSize \<le> len - 1" by linarith
  moreover have "(2::int) ^ (bits - 1) = 2 * 2 ^ (bits - 2)"
  proof -
    from assms(3) obtain k where "bits = Suc (Suc k)"
      by (metis Suc_le_D numeral_2_eq_2 Suc_le_mono le0 not0_implies_Suc not_less_eq_eq)
    then show ?thesis by simp
  qed
  ultimately show ?thesis using False assms(5) by linarith
qed

text \<open>
  \<^bold>\<open>C10, as stated, fails.\<close>  On the non-empty slice \<open>[5]\<close> with \<open>chunkSize = -1\<close> the call
  terminates: the first slice expression \<open>slice[0:-1]\<close> panics.  The claim has termination
  on a non-empty slice only for \<open>chunkSize \<ge> 1\<close>.
\<close>

theorem ChunkSlice_termination_counterexample:
  "[5 :: nat] \<noteq> [] \<and> \<not> (1 :: int) \<le> - 1
   \<and> ChunkSlice 64 [5 :: nat] (- 1) = Some Panic
   \<and> ChunkSlice 64 [5 :: nat] (- 1) \<noteq> None"
  by (simp add: ChunkSlice_def ChunkSlice_loop.simps wrap_int_def)

text \<open>
  \<^bold>\<open>C10, amended.\<close>  ChunkSlice terminates, with a result or with a panic, for every
  input slice when \<open>chunkSize\<close> is at least \<open>1\<close>.  The function has no guard for other
  chunk sizes: on a non-empty slice \<open>chunkSize = 0\<close> never terminates (the loop index does
  not advance), and a negative \<open>chunkSize\<close> terminates at once with a panic at the first
  slice expression.
\<close>

theorem ChunkSlice_termination:
  "(0 < bits1 \<and> 1 \<le> chunkSize1 \<and> chunkSize1 < 2 ^ (bits1 - 1)
      \<and> int (length slice1) < 2 ^ (bits1 - 1)
      \<longrightarrow> (\<exists>out. ChunkSlice bits1 slice1 chunkSize1 = Some out))
   \<and> (0 < bits2 \<and> slice2 \<noteq> [] \<and> int (length slice2) < 2 ^ (bits2 - 1)
      \<longrightarrow> ChunkSlice bits2 slice2 0 = None)
   \<and> (0 < bits3 \<and> slice3 \<noteq> [] \<and> chunkSize3 < 0 \<and> - (2 ^ (bits3 - 1)) \<le> chunkSize3
      \<longrightarrow> ChunkSlice bits3 slice3 chunkSize3 = Some Panic)"
proof (intro conjI impI)
  assume "0 < bits1 \<and> 1 \<le> chunkSize1 \<and> chunkSize1 < 2 ^ (bits1 - 1)
      \<and> int (length slice1) < 2 ^ (bits1 - 1)"
  then show "\<exists>out. ChunkSlice bits1 slice1 chunkSize1 = Some out"
    unfolding ChunkSlice_def by (intro ChunkSlice_loop_halts) simp_all
next
  assume a: "0 < bits2 \<and> slice2 \<noteq> [] \<and> int (length slice2) < 2 ^ (bits2 - 1)"
  show "ChunkSlice bits2 slice2 0 = None"
  proof (cases "ChunkSlice bits2 slice2 0")
    case None
    then show ?thesis .
  next
    case (Some r)
    then have "ChunkSlice_loop bits2 slice2 0 0 [] = Some r" by (simp add: ChunkSlice_def)
    from ChunkSlice_loop_zero[OF this] a show ?thesis by (simp add: less_imp_le)
  qed
next
  assume a: "0 < bits3 \<and> slice3 \<noteq> [] \<and> chunkSize3 < 0 \<and> - (2 ^ (bits3 - 1)) \<le> chunkSize3"
  then have "chunkSize3 < 2 ^ (bits3 - 1)" by (smt (verit) zero_le_power)
  with a have "wrap_int bits3 chunkSize3 = chunkSize3" by (intro wrap_int_id) simp_all
  with a show "ChunkSlice bits3 slice3 chunkSize3 = Some Panic"
    unfolding ChunkSlice_def by (subst ChunkSlice_loop.simps) (simp add: Let_def)
qed

theorem ChunkSlice_termination_witness:
  "(0 :: nat) < 64 \<and> (1 :: int) \<le> 2 \<and> (2 :: int) < 2 ^ (64 - 1)
   \<and> int (length [1, 2, 3 :: nat]) < 2 ^ (64 - 1)
   \<and> ChunkSlice 64 [1, 2, 3 :: nat] 2 = Some (Return [[1, 2], [3]])
   \<and> [5 :: nat] \<noteq> [] \<and> int (length [5 :: nat]) < 2 ^ (64 - 1)
   \<and> ChunkSlice 64 [5 :: nat] 0 = None
   \<and> [7 :: nat] \<noteq> [] \<and> (- 3 :: int) < 0 \<and> - (2 ^ (64 - 1)) \<le> (- 3 :: int)
   \<and> ChunkSlice 64 [7 :: nat] (- 3) = Some Panic"
proof -
  have a: "ChunkSlice 64 [1, 2, 3 :: nat] 2 = Some (Return [[1, 2], [3]])"
    by (simp add: ChunkSlice_def ChunkSlice_loop.simps slice_expr_def wrap_int_def)
  show ?thesis
    using a ChunkSlice_termination
      [of 64 2 "[1, 2, 3 :: nat]" 64 "[5 :: nat]" 64 "[7 :: nat]" "- 3"]
    by simp
qed

subsection \<open>Map and MapDto\<close>

text \<open>The index loop of \<open>Map\<close> overwrites every zero of the fresh slice: it is \<open>map\<close>.\<close>

lemma Map_fold_prefix:
  "k \<le> length ts \<Longrightarrow> length us = length ts \<Longrightarrow>
   fold (\<lambda>i us. us[i := f (ts ! i)]) [0..<k] us = map f (take k ts) @ drop k us"
proof (induction k)
  case 0
  then show ?case by simp
next
  case (Suc k)
  then have k: "k < length ts" by simp
  have "fold (\<lambda>i us. us[i := f (ts ! i)]) [0..<Suc k] us
      = (map f (take k ts) @ drop k us)[k := f (ts ! k)]"
    using Suc by simp
  also have "\<dots> = map f (take k ts) @ (drop k us)[0 := f (ts ! k)]"
    using k by (simp add: list_update_append)
  also have "drop k us = us ! k # drop (Suc k) us"
    using k Suc.prems by (simp add: Cons_nth_drop_Suc)
  also have "map f (take k ts) @ (us ! k # drop (Suc k) us)[0 := f (ts ! k)]
      = map f (take (Suc k) ts) @ drop (Suc k) us"
    using k by (simp add: take_Suc_conv_app_nth)
  finally show ?case .
qed

lemma Map_eq_map: "Map zeroU ts f = map f ts"
  by (simp add: Map_def Map_fold_prefix)


text \<open>
  \<^bold>\<open>C8.\<close> MapDto returns a slice as long as its input, never an error.  At each position
  whose converted element passes the type assertion it holds the asserted value, and at
  each position where the assertion fails it holds the zero value of the target type.
\<close>

theorem MapDto_zero_on_failed_assertion:
  "length (MapDto gm assertT zeroT modelArray dtoType) = length modelArray
   \<and> (\<forall>i < length modelArray.
        (assertT (ToEntity gm (modelArray ! i)) = None
           \<longrightarrow> MapDto gm assertT zeroT modelArray dtoType ! i = zeroT)
        \<and> (\<forall>t. assertT (ToEntity gm (modelArray ! i)) = Some t
           \<longrightarrow> MapDto gm assertT zeroT modelArray dtoType ! i = t))"
proof -
  have eq: "MapDto gm assertT zeroT modelArray dtoType
      = map (MapDto_conv gm assertT zeroT) modelArray"
    by (simp add: MapDto_def Map_eq_map)
  have "MapDto gm assertT zeroT modelArray dtoType ! i
      = (case assertT (ToEntity gm (modelArray ! i)) of None \<Rightarrow> zeroT | Some t \<Rightarrow> t)"
    if "i < length modelArray" for i
    using that by (simp add: eq MapDto_conv_def)
  then show ?thesis by (simp add: eq)
qed

theorem MapDto_zero_on_failed_assertion_witness:
  "MapDto example_conv (\<lambda>e. if even e then Some (int e) else None) 0 [1, 2, 3] 7
     = [0, 102, 0]
   \<and> (0 :: nat) < length [1, 2, 3 :: nat]
   \<and> (\<lambda>e. if even e then Some (int e) else None) (ToEntity example_conv ([1, 2, 3] ! 0)) = None
   \<and> MapDto example_conv (\<lambda>e. if even e then Some (int e) else None) 0 [1, 2, 3] 7 ! 0 = 0
   \<and> (1 :: nat) < length [1, 2, 3 :: nat]
   \<and> (\<lambda>e. if even e then Some (int e) else None) (ToEntity example_conv ([1, 2, 3] ! 1)) = Some 102
   \<and> MapDto example_conv (\<lambda>e. if even e then Some (int e) else None) 0 [1, 2, 3] 7 ! 1 = 102"
  using MapDto_zero_on_failed_assertion
    [of example_conv "\<lambda>e. if even e then Some (int e) else None" 0 "[1, 2, 3]" 7]
  by (simp add: MapDto_def Map_def MapDto_conv_def example_conv_def)

section \<open>Properties of the floating-point arithmetic\<close>

text \<open>\<open>ilog2\<close> is the binary exponent: \<open>2^e \<le> x < 2^(e+1)\<close> determines it.\<close>

lemma ilog2_bounds:
  assumes "0 < x"
  shows "2 powi (ilog2 x) \<le> x" and "x < 2 powi (ilog2 x + 1)"
proof -
  have "2 powi (ilog2 x) \<le> x \<and> x < 2 powi (ilog2 x + 1)"
  proof (cases "1 \<le> x")
    case True
    define n where "n = \<lfloor>x\<rfloor>"
    have n: "1 \<le> n" "of_int n \<le> x" "x < of_int n + 1"
      unfolding n_def using True by linarith+
    define b where "b = bitlen n"
    have b: "2 ^ nat (b - 1) \<le> n" "n < 2 ^ nat b"
      using bitlen_bounds[of n] n(1) by (auto simp: b_def)
    have b1: "1 \<le> b" using n(1) b(2) by (cases "b \<le> 0") auto
    have "(2::rat) powi (b - 1) = of_int (2 ^ nat (b - 1))"
      using b1 by (simp add: power_int_def)
    also have "\<dots> \<le> of_int n" using b(1) by (simp only: of_int_le_iff)
    finally have lo: "(2::rat) powi (b - 1) \<le> x" using n(2) by simp
    have "n + 1 \<le> 2 ^ nat b" using b(2) by simp
    then have "(of_int (n + 1) :: rat) \<le> of_int (2 ^ nat b)" by (simp only: of_int_le_iff)
    then have "x < (2::rat) powi b" using n(3) b1 by (simp add: power_int_def)
    with lo True show ?thesis by (simp add: ilog2_def n_def b_def)
  next
    case False
    define y where "y = 1 / x"
    have y: "1 < y" using False assms by (simp add: y_def)
    define m where "m = \<lceil>y\<rceil> - 1"
    have m: "1 \<le> m" "of_int m < y" "y \<le> of_int m + 1"
      unfolding m_def using y by linarith+
    define b where "b = bitlen m"
    have b: "2 ^ nat (b - 1) \<le> m" "m < 2 ^ nat b"
      using bitlen_bounds[of m] m(1) by (auto simp: b_def)
    have b1: "1 \<le> b" using m(1) b(2) by (cases "b \<le> 0") auto
    have "m + 1 \<le> 2 ^ nat b" using b(2) by simp
    then have "(of_int (m + 1) :: rat) \<le> of_int (2 ^ nat b)" by (simp only: of_int_le_iff)
    then have "y \<le> 2 ^ nat b" using m(3) by simp
    then have "1 / x \<le> 2 ^ nat b" by (simp add: y_def)
    then have lo: "1 / 2 ^ nat b \<le> x" using assms
      by (simp add: field_simps)
    have "(2::rat) ^ nat (b - 1) \<le> of_int m"
      using b(1) by (metis of_int_le_iff of_int_numeral of_int_power)
    then have "2 ^ nat (b - 1) < y" using m(2) by linarith
    then have "2 ^ nat (b - 1) < 1 / x" by (simp add: y_def)
    then have hi: "x < 1 / 2 ^ nat (b - 1)" using assms by (simp add: field_simps)
    have e: "ilog2 x = - b" using False by (simp add: ilog2_def y_def m_def b_def)
    have "(2::rat) powi (- b) = 1 / 2 ^ nat b" using b1
      by (simp add: power_int_def field_simps)
    moreover have "(2::rat) powi (- b + 1) = 1 / 2 ^ nat (b - 1)" using b1
      by (simp add: power_int_def field_simps nat_diff_distrib)
    ultimately show ?thesis using lo hi e by simp
  qed
  then show "2 powi (ilog2 x) \<le> x" and "x < 2 powi (ilog2 x + 1)" by simp_all
qed

lemma ilog2_unique:
  assumes "0 < x" "2 powi e \<le> x" "x < 2 powi (e + 1)"
  shows "ilog2 x = e"
proof (rule antisym)
  show "ilog2 x \<le> e"
  proof (rule ccontr)
    assume "\<not> ilog2 x \<le> e"
    then have "e + 1 \<le> ilog2 x" by simp
    then have "(2::rat) powi (e + 1) \<le> 2 powi (ilog2 x)" by (intro power_int_increasing) auto
    with ilog2_bounds(1)[OF assms(1)] assms(3) show False by simp
  qed
  show "e \<le> ilog2 x"
  proof (rule ccontr)
    assume "\<not> e \<le> ilog2 x"
    then have "ilog2 x + 1 \<le> e" by simp
    then have "(2::rat) powi (ilog2 x + 1) \<le> 2 powi e" by (intro power_int_increasing) auto
    with ilog2_bounds(2)[OF assms(1)] assms(2) show False by simp
  qed
qed

lemma ilog2_ge:
  assumes "0 < x" "2 powi e \<le> x"
  shows "e \<le> ilog2 x"
proof (rule ccontr)
  assume "\<not> e \<le> ilog2 x"
  then have "ilog2 x + 1 \<le> e" by simp
  then have "(2::rat) powi (ilog2 x + 1) \<le> 2 powi e" by (intro power_int_increasing) auto
  with ilog2_bounds(2)[OF assms(1)] assms(2) show False by simp
qed

lemma ilog2_less:
  assumes "0 < x" "x < 2 powi e"
  shows "ilog2 x < e"
proof (rule ccontr)
  assume "\<not> ilog2 x < e"
  then have "e \<le> ilog2 x" by simp
  then have "(2::rat) powi e \<le> 2 powi (ilog2 x)" by (intro power_int_increasing) auto
  with ilog2_bounds(1)[OF assms(1)] assms(2) show False by simp
qed

text \<open>Rounding to an integer moves a value by at most one half and fixes the integers.\<close>

lemma round_half_even_bounds: "\<lfloor>x\<rfloor> \<le> round_half_even x" "round_half_even x \<le> \<lceil>x\<rceil>"
proof -
  show "\<lfloor>x\<rfloor> \<le> round_half_even x" by (simp add: round_half_even_def Let_def)
  have "\<lfloor>x\<rfloor> + 1 \<le> \<lceil>x\<rceil>" if "x \<noteq> of_int \<lfloor>x\<rfloor>"
    using that by (metis ceiling_altdef order_refl)
  moreover have "\<lfloor>x\<rfloor> \<le> \<lceil>x\<rceil>" by (rule floor_le_ceiling)
  ultimately show "round_half_even x \<le> \<lceil>x\<rceil>"
    by (auto simp: round_half_even_def Let_def)
qed

lemma round_half_even_of_int [simp]: "round_half_even (of_int k) = k"
  by (simp add: round_half_even_def)

lemma round_half_even_error: "\<bar>of_int (round_half_even x) - x\<bar> \<le> 1 / 2"
proof -
  have "of_int \<lfloor>x\<rfloor> \<le> x" "x < of_int \<lfloor>x\<rfloor> + 1" by linarith+
  then show ?thesis by (auto simp: round_half_even_def Let_def abs_le_iff)
qed

text \<open>
  \<open>f64_round\<close> is within half a unit in the last place of its argument, and it fixes
  every value \<open>k * 2^j\<close> with \<open>|k| < 2^53\<close> and \<open>j \<ge> -1074\<close>: these are the binary64 numbers.
  A positive value in the normal range stays within its binade.
\<close>

lemma f64_ulp_pos [simp]: "0 < f64_ulp x"
  by (simp add: f64_ulp_def)

lemma f64_round_error: "\<bar>f64_round x - x\<bar> \<le> f64_ulp x / 2"
proof (cases "x = 0")
  case True
  then show ?thesis using f64_ulp_pos[of 0] by (simp add: f64_round_def less_imp_le)
next
  case False
  define u where "u = f64_ulp x"
  have u: "0 < u" by (simp add: u_def)
  have "f64_round x - x = (of_int (round_half_even (x / u)) - x / u) * u"
    using False u by (simp add: f64_round_def u_def[symmetric] field_simps)
  then have "\<bar>f64_round x - x\<bar> = \<bar>of_int (round_half_even (x / u)) - x / u\<bar> * u"
    using u by (simp add: abs_mult)
  also have "\<dots> \<le> (1 / 2) * u"
    using round_half_even_error[of "x / u"] u by (intro mult_right_mono) auto
  finally show ?thesis by (simp add: u_def)
qed

lemma f64_round_exact:
  assumes "x / f64_ulp x = of_int k"
  shows "f64_round x = x"
proof (cases "x = 0")
  case True
  then show ?thesis by (simp add: f64_round_def)
next
  case False
  have "of_int k * f64_ulp x = x" using assms f64_ulp_pos[of x]
    by (simp add: field_simps)
  with False assms show ?thesis by (simp add: f64_round_def)
qed

lemma f64_round_representable:
  assumes k: "\<bar>k\<bar> < 2 ^ 53" and j: "- 1074 \<le> j"
  shows "f64_round (of_int k * 2 powi j) = of_int k * 2 powi j"
proof (cases "k = 0")
  case True
  then show ?thesis by (simp add: f64_round_def)
next
  case False
  define x :: rat where "x = of_int k * 2 powi j"
  have xpos: "0 < \<bar>x\<bar>" using False by (simp add: x_def)
  define e where "e = ilog2 \<bar>x\<bar>"
  have "(of_int \<bar>k\<bar> :: rat) < of_int (2 ^ 53)" using k by (simp only: of_int_less_iff)
  then have "\<bar>x\<bar> < 2 ^ 53 * 2 powi j"
    by (simp add: x_def abs_mult)
  also have "\<dots> = 2 powi (53 + j)" by (simp add: power_int_add)
  finally have "(2::rat) powi e < 2 powi (53 + j)"
    using ilog2_bounds(1)[OF xpos] by (simp add: e_def)
  then have "e < 53 + j"
    using power_int_increasing[of "53 + j" e "2::rat"] by (cases "e < 53 + j") auto
  then have d: "0 \<le> j - (max e (- 1022) - 52)" using j by simp
  define d where "d = j - (max e (- 1022) - 52)"
  have "f64_ulp x = 2 powi (j - d)" by (simp add: f64_ulp_def e_def d_def)
  then have "x / f64_ulp x = of_int k * 2 powi d"
    by (simp add: x_def power_int_diff)
  also have "\<dots> = of_int (k * 2 ^ nat d)"
    using d by (simp add: d_def power_int_def)
  finally show ?thesis unfolding x_def[symmetric] by (rule f64_round_exact)
qed

lemma f64_of_int_exact:
  assumes "\<bar>n\<bar> \<le> 2 ^ 53"
  shows "f64_of_int n = of_int n"
proof (cases "\<bar>n\<bar> < 2 ^ 53")
  case True
  from f64_round_representable[OF True, of 0] show ?thesis by (simp add: f64_of_int_def)
next
  case False
  with assms have "\<bar>n\<bar> = 2 ^ 53" by simp
  then consider "n = 2 ^ 53" | "n = - (2 ^ 53)" by linarith
  then show ?thesis
  proof cases
    case 1
    from f64_round_representable[of "2 ^ 52" 1] show ?thesis
      by (simp add: f64_of_int_def 1)
  next
    case 2
    from f64_round_representable[of "- (2 ^ 52)" 1] show ?thesis
      by (simp add: f64_of_int_def 2)
  qed
qed

lemma f64_round_nonpos: "x \<le> 0 \<Longrightarrow> f64_round x \<le> 0"
proof -
  assume x: "x \<le> 0"
  have "x / f64_ulp x \<le> 0" using x f64_ulp_pos[of x] by (rule divide_nonpos_pos)
  then have "\<lceil>x / f64_ulp x\<rceil> \<le> 0" by (simp add: ceiling_le_iff)
  with round_half_even_bounds(2)[of "x / f64_ulp x"]
  have "round_half_even (x / f64_ulp x) \<le> 0" by linarith
  then have "(of_int (round_half_even (x / f64_ulp x)) :: rat) \<le> 0" by simp
  then show ?thesis using f64_ulp_pos[of x]
    by (simp add: f64_round_def mult_le_0_iff less_imp_le)
qed

lemma f64_round_binade:
  assumes "0 < x" and "- 1022 \<le> ilog2 x"
  shows "2 powi (ilog2 x) \<le> f64_round x" and "f64_round x \<le> 2 powi (ilog2 x + 1)"
proof -
  define e where "e = ilog2 x"
  define u :: rat where "u = 2 powi (e - 52)"
  have u: "0 < u" by (simp add: u_def)
  have ulp: "f64_ulp x = u" using assms by (simp add: f64_ulp_def u_def e_def max_def)
  have lo: "2 ^ 52 \<le> x / u"
  proof -
    have "(2::rat) ^ 52 * u = 2 powi e" by (simp add: u_def power_int_diff)
    also have "\<dots> \<le> x" using ilog2_bounds(1)[OF assms(1)] by (simp add: e_def)
    finally show ?thesis using u by (simp add: field_simps)
  qed
  have hi: "x / u < 2 ^ 53"
  proof -
    have "x < 2 powi (e + 1)" using ilog2_bounds(2)[OF assms(1)] by (simp add: e_def)
    also have "\<dots> = 2 ^ 53 * u" by (simp add: u_def power_int_diff power_int_add)
    finally show ?thesis using u by (simp add: field_simps)
  qed
  have "(2::int) ^ 52 \<le> \<lfloor>x / u\<rfloor>" using lo by (simp add: le_floor_iff)
  with round_half_even_bounds(1)[of "x / u"]
  have "(2::int) ^ 52 \<le> round_half_even (x / u)" by linarith
  then have "(of_int (2 ^ 52) :: rat) \<le> of_int (round_half_even (x / u))"
    by (simp only: of_int_le_iff)
  then have "2 ^ 52 * u \<le> of_int (round_half_even (x / u)) * u"
    using u by simp
  moreover have "(2::rat) ^ 52 * u = 2 powi e" by (simp add: u_def power_int_diff)
  ultimately show "2 powi (ilog2 x) \<le> f64_round x"
    using assms(1) by (simp add: f64_round_def ulp e_def)
  have "\<lceil>x / u\<rceil> \<le> (2::int) ^ 53" using hi by (simp add: ceiling_le_iff less_imp_le)
  with round_half_even_bounds(2)[of "x / u"]
  have "round_half_even (x / u) \<le> (2::int) ^ 53" by linarith
  then have "(of_int (round_half_even (x / u)) :: rat) \<le> of_int (2 ^ 53)"
    by (simp only: of_int_le_iff)
  then have "of_int (round_half_even (x / u)) * u \<le> 2 ^ 53 * u"
    using u by simp
  moreover have "(2::rat) ^ 53 * u = 2 powi (e + 1)"
    by (simp add: u_def power_int_diff power_int_add)
  ultimately show "f64_round x \<le> 2 powi (ilog2 x + 1)"
    using assms(1) by (simp add: f64_round_def ulp e_def)
qed

text \<open>
  The page size as a \<open>float64\<close>: up to \<open>2^53\<close> it is the clamped size itself; above, it is
  still at least \<open>2^53\<close>.
\<close>

lemma minLimit_small:
  assumes "Size pageCfg \<le> 2 ^ 53"
  shows "minLimit pageCfg = of_int (max 1 (Size pageCfg))"
proof (cases "- (2 ^ 53) \<le> Size pageCfg")
  case True
  with assms have "\<bar>Size pageCfg\<bar> \<le> 2 ^ 53" by simp
  from f64_of_int_exact[OF this] show ?thesis
    by (simp add: minLimit_def math_Max_def max_def)
next
  case False
  then have "(of_int (Size pageCfg) :: rat) \<le> 0" by simp
  from f64_round_nonpos[OF this] have "f64_of_int (Size pageCfg) \<le> 0"
    by (simp add: f64_of_int_def)
  moreover from False have "max 1 (Size pageCfg) = 1" by simp
  ultimately show ?thesis by (simp add: minLimit_def math_Max_def)
qed

lemma minLimit_large:
  assumes "2 ^ 53 < Size pageCfg" "Size pageCfg < 2 ^ 63"
  shows "2 ^ 53 \<le> minLimit pageCfg" and "minLimit pageCfg \<le> 2 ^ 63"
proof -
  define x :: rat where "x = of_int (Size pageCfg)"
  have "(of_int (2 ^ 53) :: rat) < of_int (Size pageCfg)"
    using assms(1) by (simp only: of_int_less_iff)
  then have lo: "2 powi 53 < x" by (simp add: x_def)
  have "(of_int (Size pageCfg) :: rat) < of_int (2 ^ 63)"
    using assms(2) by (simp only: of_int_less_iff)
  then have hi: "x < 2 powi 63" by (simp add: x_def)
  have pos: "0 < x" using lo by (simp add: less_trans[of 0 "2 powi 53" x])
  have e1: "53 \<le> ilog2 x" using ilog2_ge[OF pos, of 53] lo by simp
  have e2: "ilog2 x < 63" using ilog2_less[OF pos hi] .
  have n: "- 1022 \<le> ilog2 x" using e1 by simp
  have "(2::rat) powi 53 \<le> 2 powi (ilog2 x)" using e1 by (intro power_int_increasing) auto
  with f64_round_binade(1)[OF pos n] have a: "2 ^ 53 \<le> f64_round x" by simp
  have "(2::rat) powi (ilog2 x + 1) \<le> 2 powi 63" using e2 by (intro power_int_increasing) auto
  with f64_round_binade(2)[OF pos n] have b: "f64_round x \<le> 2 ^ 63" by simp
  have "(1::rat) < 2 ^ 53" by simp
  with a have "1 < f64_round x" by linarith
  then have "minLimit pageCfg = f64_round x"
    by (simp add: minLimit_def math_Max_def f64_of_int_def x_def)
  with a b show "2 ^ 53 \<le> minLimit pageCfg" and "minLimit pageCfg \<le> 2 ^ 63" by simp_all
qed

text \<open>
  The quotient of two integers up to \<open>2^53\<close>, rounded to binary64, has the ceiling of the
  exact quotient: an exact quotient that is no integer is at least \<open>1/S\<close> away from the
  integers around it, and the rounding error is less than \<open>1/S\<close>.
\<close>

lemma ceiling_f64_div_small:
  assumes R: "0 < R" "R \<le> 2 ^ 53" and S: "1 \<le> S" "S \<le> 2 ^ 53"
  shows "\<lceil>f64_round (of_int R / of_int S)\<rceil> = \<lceil>(of_int R / of_int S :: rat)\<rceil>"
proof -
  define q :: rat where "q = of_int R / of_int S"
  have Spos: "(0::rat) < of_int S" using S by simp
  have qpos: "0 < q" using R S by (simp add: q_def)
  have qS: "q * of_int S = of_int R" using S by (simp add: q_def)
  define e where "e = ilog2 q"
  have R53: "(of_int R :: rat) \<le> 2 ^ 53"
    using R(2) by (metis of_int_le_iff of_int_numeral of_int_power)
  have S53: "(of_int S :: rat) \<le> 2 ^ 53"
    using S(2) by (metis of_int_le_iff of_int_numeral of_int_power)
  have R1: "(1::rat) \<le> of_int R" using R(1) by simp
  have "1 / of_int S \<le> q" using R1 Spos by (simp add: q_def divide_right_mono)
  moreover have "(1::rat) / 2 ^ 53 \<le> 1 / of_int S" using S53 Spos by (simp add: field_simps)
  ultimately have "(2::rat) powi (- 53) \<le> q" by (simp add: power_int_minus field_simps)
  from ilog2_ge[OF qpos this] have e53: "- 53 \<le> e" by (simp add: e_def)
  show ?thesis
  proof (cases "q = 2 powi e")
    case True
    from f64_round_representable[of 1 e] e53 have "f64_round (2 powi e) = 2 powi e" by simp
    with True show ?thesis by (simp add: q_def)
  next
    case False
    with ilog2_bounds(1)[OF qpos] have elt: "2 powi e < q" by (simp add: e_def)
    show ?thesis
    proof (cases "S dvd R")
      case True
      then obtain k where k: "R = S * k" ..
      have kq: "q = of_int k" using S by (simp add: q_def k)
      have kpos: "0 < k" using qpos kq by simp
      then have "k * 1 \<le> k * S" using S(1) by (intro mult_left_mono) auto
      then have "k \<le> R" by (simp add: k mult.commute)
      with kpos have "\<bar>k\<bar> \<le> 2 ^ 53" using R(2) by simp
      from f64_of_int_exact[OF this] show ?thesis
        by (simp add: q_def[symmetric] kq f64_of_int_def)
    next
      case ndvd: False
      define k where "k = R div S"
      define r where "r = R mod S"
      have "0 \<le> r" "r < S" "r \<noteq> 0"
        using ndvd S by (simp_all add: r_def dvd_eq_mod_eq_0)
      then have r: "1 \<le> r" "r \<le> S - 1" by simp_all
      have "R = S * k + r" by (simp add: k_def r_def)
      then have "(of_int R :: rat) = of_int S * of_int k + of_int r" by (metis of_int_add of_int_mult)
      then have qk: "q = of_int k + of_int r / of_int S"
        using Spos by (simp add: q_def field_simps)
      have r1: "1 / of_int S \<le> (of_int r / of_int S :: rat)"
        using r(1) Spos by (simp add: divide_right_mono)
      have "(of_int r :: rat) \<le> of_int S - 1" using r(2) by (metis of_int_le_iff of_int_diff of_int_1)
      then have r2: "(of_int r / of_int S :: rat) \<le> 1 - 1 / of_int S"
        using Spos by (simp add: field_simps)
      define u :: rat where "u = 2 powi (e - 52)"
      have ulp: "f64_ulp q = u" using qpos e53 by (simp add: f64_ulp_def u_def e_def max_def)
      have "(2::rat) powi e * of_int S < q * of_int S" using elt Spos by simp
      also have "\<dots> \<le> 2 ^ 53" using qS R53 by simp
      finally have "(2::rat) powi e / 2 ^ 53 < 1 / of_int S" using Spos by (simp add: field_simps)
      moreover have "u / 2 = 2 powi e / 2 ^ 53" by (simp add: u_def power_int_diff)
      ultimately have half: "u / 2 < 1 / of_int S" by simp
      from f64_round_error[of q] have "\<bar>f64_round q - q\<bar> \<le> u / 2" by (simp add: ulp)
      with half have "\<bar>f64_round q - q\<bar> < 1 / of_int S" by linarith
      with qk r1 r2 have "of_int k < f64_round q" "f64_round q < of_int k + 1"
        by linarith+
      then have "\<lceil>f64_round q\<rceil> = k + 1" by (intro ceiling_unique) auto
      moreover have Sinv: "(0::rat) < 1 / of_int S" using Spos by simp
      have "of_int k < q" "q < of_int k + 1" using qk r1 r2 Sinv by linarith+
      then have "\<lceil>q\<rceil> = k + 1" by (intro ceiling_unique) auto
      ultimately show ?thesis by (simp add: q_def)
    qed
  qed
qed

lemma int64_of_f64_of_int:
  assumes "- (2 ^ 63) \<le> k" "k < 2 ^ 63"
  shows "int64_of_f64 impl (of_int k) = k"
  using assms by (simp add: int64_of_f64_def)

lemma page_count_exact:
  assumes R: "0 \<le> R" "R \<le> 2 ^ 53" and S: "Size pageCfg < 2 ^ 63"
  shows "int64_of_f64 impl (math_Ceil (f64_div (f64_of_int R) (minLimit pageCfg)))
         = \<lceil>(of_int R / of_int (max 1 (Size pageCfg)) :: rat)\<rceil>"
proof -
  define S' where "S' = max 1 (Size pageCfg)"
  have S'1: "1 \<le> S'" by (simp add: S'_def)
  have fR: "f64_of_int R = of_int R" using R by (intro f64_of_int_exact) simp
  have ceil: "\<lceil>f64_div (f64_of_int R) (minLimit pageCfg)\<rceil> = \<lceil>(of_int R / of_int S' :: rat)\<rceil>"
  proof (cases "R = 0")
    case True
    have "f64_of_int 0 = 0" by (simp add: f64_of_int_def f64_round_def)
    with True show ?thesis by (simp add: f64_div_def f64_round_def)
  next
    case False
    with R have Rpos: "0 < R" by simp
    show ?thesis
    proof (cases "Size pageCfg \<le> 2 ^ 53")
      case True
      then have "S' \<le> 2 ^ 53" by (simp add: S'_def)
      from ceiling_f64_div_small[OF Rpos R(2) S'1 this] minLimit_small[OF True]
      show ?thesis by (simp add: fR f64_div_def S'_def)
    next
      case False
      then have big: "2 ^ 53 < Size pageCfg" by simp
      note m = minLimit_large[OF big S]
      define s where "s = minLimit pageCfg"
      define q :: rat where "q = of_int R / s"
      have R53: "(of_int R :: rat) \<le> 2 ^ 53"
        using R(2) by (metis of_int_le_iff of_int_numeral of_int_power)
      have R1: "(1::rat) \<le> of_int R" using Rpos by simp
      have spos: "0 < s" using m(1) by (simp add: s_def less_le_trans[of 0 "2 ^ 53"])
      have qpos: "0 < q" using Rpos spos by (simp add: q_def)
      have qle: "q \<le> 1" using R53 m(1) spos by (simp add: q_def s_def)
      have "1 / 2 ^ 63 \<le> 1 / s" using m(2) spos by (simp add: s_def field_simps)
      also have "1 / s \<le> q" using R1 spos by (simp add: q_def divide_right_mono)
      finally have "(2::rat) powi (- 63) \<le> q" by (simp add: power_int_minus field_simps)
      from ilog2_ge[OF qpos this] have e: "- 1022 \<le> ilog2 q" by simp
      have "0 < f64_round q"
        using f64_round_binade(1)[OF qpos e] zero_less_power_int[of "2::rat" "ilog2 q"]
        by linarith
      moreover have "f64_round q \<le> 1"
      proof (cases "q = 1")
        case True
        from f64_round_representable[of 1 0] show ?thesis by (simp add: True)
      next
        case False
        with qle have "q < 2 powi 0" by simp
        from ilog2_less[OF qpos this] have "ilog2 q + 1 \<le> 0" by simp
        then have "(2::rat) powi (ilog2 q + 1) \<le> 2 powi 0" by (intro power_int_increasing) auto
        with f64_round_binade(2)[OF qpos e] show ?thesis by simp
      qed
      ultimately have "\<lceil>f64_round q\<rceil> = 1" by (intro ceiling_unique) auto
      moreover have "R < S'" using R(2) big by (simp add: S'_def)
      then have "(of_int R :: rat) < of_int S'" by (simp only: of_int_less_iff)
      then have "(of_int R / of_int S' :: rat) \<le> 1" "0 < (of_int R / of_int S' :: rat)"
        using S'1 Rpos by simp_all
      then have "\<lceil>(of_int R / of_int S' :: rat)\<rceil> = 1" by (intro ceiling_unique) auto
      ultimately show ?thesis by (simp add: fR f64_div_def q_def s_def)
    qed
  qed
  define c where "c = \<lceil>(of_int R / of_int S' :: rat)\<rceil>"
  have "0 \<le> (of_int R / of_int S' :: rat)" using R(1) S'1 by simp
  then have c0: "0 \<le> c" by (simp add: c_def)
  have "(of_int R / of_int S' :: rat) \<le> of_int R" using R(1) S'1
    by (simp add: divide_le_eq mult_le_cancel_left1)
  then have "c \<le> R" by (simp add: c_def ceiling_le_iff)
  with R(2) have c1: "c < 2 ^ 63" by simp
  have "int64_of_f64 impl (of_int c) = c" using c0 c1 by (intro int64_of_f64_of_int) simp_all
  then show ?thesis by (simp add: math_Ceil_def ceil c_def S'_def)
qed

lemma page_limit_exact:
  assumes "Size pageCfg \<le> 2 ^ 53"
  shows "int64_of_f64 impl (minLimit pageCfg) = max 1 (Size pageCfg)"
proof -
  have "- (2 ^ 63) \<le> max 1 (Size pageCfg)" "max 1 (Size pageCfg) < 2 ^ 63"
    using assms by simp_all
  from int64_of_f64_of_int[OF this] show ?thesis by (simp add: minLimit_small[OF assms])
qed

lemma f64_of_int_2_53_1: "f64_of_int (2 ^ 53 + 1) = 2 ^ 53"
proof -
  have e: "ilog2 9007199254740993 = 53"
    by (rule ilog2_unique) simp_all
  have u: "f64_ulp 9007199254740993 = 2" by (simp add: f64_ulp_def e)
  have fl: "\<lfloor>(9007199254740993 / 2 :: rat)\<rfloor> = 4503599627370496"
    by (rule floor_unique) simp_all
  have "round_half_even (9007199254740993 / 2) = 4503599627370496"
    by (simp add: round_half_even_def Let_def fl)
  then show ?thesis by (simp add: f64_of_int_def f64_round_def u)
qed

section \<open>Properties of the repository\<close>

subsection \<open>Auxiliary facts\<close>

lemma fold_Where:
  "fold (\<lambda>s d. Where (c s) d) specs d0
     = d0\<lparr>stmt_wheres := stmt_wheres d0 @ map c specs\<rparr>"
  by (induction specs arbitrary: d0) (simp_all add: Where_def)

lemma getPreWarmDbForSelect_eq:
  "getPreWarmDbForSelect r ctx specifications
     = (db r)\<lparr>stmt_context := Some ctx,
         stmt_wheres := stmt_wheres (db r) @ map (\<lambda>s. Cond (GetQuery s) (GetValues s)) specifications\<rparr>"
  by (simp add: getPreWarmDbForSelect_def fold_Where WithContext_def)

lemma fold_append_entities: "fold (\<lambda>row result. result @ [f row]) models acc = acc @ map f models"
  by (induction models arbitrary: acc) simp_all

lemmas example_defs = example_repo_def example_db_def example_orm_def example_conv_def

lemma f64_of_int_example: "f64_of_int 9007199254740993 = 9007199254740992"
  using f64_of_int_2_53_1 by simp

lemma f64_of_int_small [simp]: "f64_of_int 0 = 0" "f64_of_int 1 = 1"
  using f64_of_int_exact[of 0] f64_of_int_exact[of 1] by simp_all

subsection \<open>FindPagedWithLimit\<close>

text \<open>
  \<^bold>\<open>C3.\<close> FindPagedWithLimit makes a \<open>Count\<close> call if and only if \<open>ForceCount\<close> is set, or
  \<open>Page\<close> is \<open>0\<close> and \<open>IgnoreCount\<close> is not set; the call is made on the statement that
  carries the specifications.  In every other case no count is made and the \<open>Count\<close>
  field of the result is \<open>0\<close>, whatever the database would have counted.
\<close>

theorem FindPagedWithLimit_count_decision:
  "((\<exists>st. CountCall st \<in> set (fst (FindPagedWithLimit impl r ctx pageCfg specifications)))
      \<longleftrightarrow> (ForceCount pageCfg \<or> (PageConfig.Page pageCfg = 0 \<and> \<not> IgnoreCount pageCfg)))
   \<and> (\<forall>st. CountCall st \<in> set (fst (FindPagedWithLimit impl r ctx pageCfg specifications))
         \<longrightarrow> st = Model (getPreWarmDbForSelect r ctx specifications))
   \<and> (\<not> (ForceCount pageCfg \<or> (PageConfig.Page pageCfg = 0 \<and> \<not> IgnoreCount pageCfg))
         \<longrightarrow> Count (fst (snd (FindPagedWithLimit impl r ctx pageCfg specifications))) = 0)"
proof (cases "shouldCount pageCfg")
  case True
  then have "CountCall (Model (getPreWarmDbForSelect r ctx specifications))
      \<in> set (fst (FindPagedWithLimit impl r ctx pageCfg specifications))"
    by (simp add: FindPagedWithLimit_def Let_def split: prod.splits option.splits)
  moreover have "st = Model (getPreWarmDbForSelect r ctx specifications)"
    if "CountCall st \<in> set (fst (FindPagedWithLimit impl r ctx pageCfg specifications))" for st
    using that True
    by (auto simp: FindPagedWithLimit_def Let_def split: prod.splits option.splits)
  ultimately show ?thesis using True by (auto simp: shouldCount_def)
next
  case False
  then have "FindPagedWithLimit impl r ctx pageCfg specifications
      = (let stmt = Offset (PageConfig.Page pageCfg)
                      (Limit (int64_of_f64 impl (minLimit pageCfg))
                         (getPreWarmDbForSelect r ctx specifications));
             rs = \<lparr>Data = [], Count = 0, Page = PageConfig.Page pageCfg\<rparr>
         in case do_Find (orm r) stmt of
              (models, Some err) \<Rightarrow> ([FindCall stmt], rs, Some err)
            | (models, None) \<Rightarrow> ([FindCall stmt], rs\<lparr>Data := models\<rparr>, None))"
    by (simp add: FindPagedWithLimit_def Let_def)
  then have "(\<forall>st. CountCall st \<notin> set (fst (FindPagedWithLimit impl r ctx pageCfg specifications)))
      \<and> Count (fst (snd (FindPagedWithLimit impl r ctx pageCfg specifications))) = 0"
    by (simp add: Let_def split: prod.splits option.splits)
  with False show ?thesis by (simp add: shouldCount_def)
qed

theorem FindPagedWithLimit_count_decision_witness:
  "(ForceCount \<lparr>PageConfig.Page = 0, Size = 3, IgnoreCount = False, ForceCount = False\<rparr>
      \<or> (PageConfig.Page \<lparr>PageConfig.Page = 0, Size = 3, IgnoreCount = False, ForceCount = False\<rparr> = 0
          \<and> \<not> IgnoreCount \<lparr>PageConfig.Page = 0, Size = 3, IgnoreCount = False, ForceCount = False\<rparr>))
   \<and> (\<exists>st. CountCall st \<in> set (fst (FindPagedWithLimit (\<lambda>x. 0) (example_repo 7) ''ctx''
          \<lparr>PageConfig.Page = 0, Size = 3, IgnoreCount = False, ForceCount = False\<rparr> [])))
   \<and> \<not> (ForceCount \<lparr>PageConfig.Page = 2, Size = 3, IgnoreCount = True, ForceCount = False\<rparr>
      \<or> (PageConfig.Page \<lparr>PageConfig.Page = 2, Size = 3, IgnoreCount = True, ForceCount = False\<rparr> = 0
          \<and> \<not> IgnoreCount \<lparr>PageConfig.Page = 2, Size = 3, IgnoreCount = True, ForceCount = False\<rparr>))
   \<and> do_Count (orm (example_repo 7)) (Model (getPreWarmDbForSelect (example_repo 7) ''ctx'' [])) = (7, None)
   \<and> Count (fst (snd (FindPagedWithLimit (\<lambda>x. 0) (example_repo 7) ''ctx''
          \<lparr>PageConfig.Page = 2, Size = 3, IgnoreCount = True, ForceCount = False\<rparr> []))) = 0"
  using FindPagedWithLimit_count_decision[of "\<lambda>x. 0" "example_repo 7" "''ctx''"
          "\<lparr>PageConfig.Page = 0, Size = 3, IgnoreCount = False, ForceCount = False\<rparr>" "[]"]
        FindPagedWithLimit_count_decision[of "\<lambda>x. 0" "example_repo 7" "''ctx''"
          "\<lparr>PageConfig.Page = 2, Size = 3, IgnoreCount = True, ForceCount = False\<rparr>" "[]"]
  by (simp add: example_defs)

text \<open>
  \<^bold>\<open>C2, as stated, fails.\<close>  With \<open>2^53 + 1\<close> rows counted and a requested size of \<open>0\<close>
  the \<open>Count\<close> field is \<open>2^53\<close>: \<open>float64(elementCount)\<close> rounds the row count to the
  nearest binary64 value.  The claim asks for \<open>ceiling(R / 1) = R = 2^53 + 1\<close>.
\<close>

theorem FindPagedWithLimit_page_count_counterexample:
  "Count (fst (snd (FindPagedWithLimit (\<lambda>x. 0) (example_repo 9007199254740993) ''ctx''
          \<lparr>PageConfig.Page = 0, Size = 0, IgnoreCount = False, ForceCount = False\<rparr> [])))
     = 9007199254740992
   \<and> \<lceil>(9007199254740993 / of_int (max 1 0) :: rat)\<rceil> = 9007199254740993"
proof -
  have "f64_round 9007199254740992 = 9007199254740992"
    using f64_round_representable[of 4503599627370496 1] by simp
  moreover have "int64_of_f64 (\<lambda>x. 0) 9007199254740992 = 9007199254740992"
    using int64_of_f64_of_int[of 9007199254740992 "\<lambda>x. 0"] by simp
  ultimately show ?thesis
    by (simp add: FindPagedWithLimit_def Let_def shouldCount_def minLimit_def math_Max_def
        math_Ceil_def f64_div_def f64_of_int_example example_defs)
qed

text \<open>
  \<^bold>\<open>C2, amended.\<close>  For every requested page size \<open>S\<close> (a 64-bit integer) and every row
  count \<open>R\<close> with \<open>0 \<le> R \<le> 2^53\<close> returned by the count query, FindPagedWithLimit sets
  the \<open>Count\<close> field to \<open>ceiling(R / S')\<close>, where \<open>S' = max(1, S)\<close>; in particular for a
  requested size of \<open>0\<close> or less the field equals \<open>R\<close>.
\<close>

theorem FindPagedWithLimit_page_count:
  assumes "shouldCount pageCfg"
    and "do_Count (orm r) (Model (getPreWarmDbForSelect r ctx specifications)) = (R, None)"
    and "0 \<le> R" and "R \<le> 2 ^ 53" and "Size pageCfg < 2 ^ 63"
  shows "Count (fst (snd (FindPagedWithLimit impl r ctx pageCfg specifications)))
           = \<lceil>(of_int R / of_int (max 1 (Size pageCfg)) :: rat)\<rceil>
         \<and> (Size pageCfg \<le> 0
              \<longrightarrow> Count (fst (snd (FindPagedWithLimit impl r ctx pageCfg specifications))) = R)"
proof -
  have "Count (fst (snd (FindPagedWithLimit impl r ctx pageCfg specifications)))
      = int64_of_f64 impl (math_Ceil (f64_div (f64_of_int R) (minLimit pageCfg)))"
    using assms(1,2) by (simp add: FindPagedWithLimit_def Let_def split: sum.splits prod.splits option.splits)
  also have "\<dots> = \<lceil>(of_int R / of_int (max 1 (Size pageCfg)) :: rat)\<rceil>"
    using assms(3-5) by (rule page_count_exact)
  finally have a: "Count (fst (snd (FindPagedWithLimit impl r ctx pageCfg specifications)))
      = \<lceil>(of_int R / of_int (max 1 (Size pageCfg)) :: rat)\<rceil>" .
  moreover have "\<lceil>(of_int R / of_int (max 1 (Size pageCfg)) :: rat)\<rceil> = R" if "Size pageCfg \<le> 0"
    using that by (simp add: max_def)
  ultimately show ?thesis by simp
qed

theorem FindPagedWithLimit_page_count_witness:
  "shouldCount \<lparr>PageConfig.Page = 0, Size = 3, IgnoreCount = False, ForceCount = False\<rparr>
   \<and> do_Count (orm (example_repo 7)) (Model (getPreWarmDbForSelect (example_repo 7) ''ctx'' [])) = (7, None)
   \<and> (0::int) \<le> 7 \<and> (7::int) \<le> 2 ^ 53
   \<and> Size \<lparr>PageConfig.Page = 0, Size = 3, IgnoreCount = False, ForceCount = False\<rparr> < 2 ^ 63
   \<and> Count (fst (snd (FindPagedWithLimit (\<lambda>x. 0) (example_repo 7) ''ctx''
          \<lparr>PageConfig.Page = 0, Size = 3, IgnoreCount = False, ForceCount = False\<rparr> []))) = 3
   \<and> shouldCount \<lparr>PageConfig.Page = 0, Size = - 5, IgnoreCount = False, ForceCount = False\<rparr>
   \<and> Size \<lparr>PageConfig.Page = 0, Size = - 5, IgnoreCount = False, ForceCount = False\<rparr> \<le> 0
   \<and> Count (fst (snd (FindPagedWithLimit (\<lambda>x. 0) (example_repo 7) ''ctx''
          \<lparr>PageConfig.Page = 0, Size = - 5, IgnoreCount = False, ForceCount = False\<rparr> []))) = 7"
proof -
  have c: "\<lceil>(7 / 3 :: rat)\<rceil> = 3" by (rule ceiling_unique) simp_all
  have s: "shouldCount \<lparr>PageConfig.Page = 0, Size = z, IgnoreCount = False, ForceCount = False\<rparr>"
    for z by (simp add: shouldCount_def)
  have d: "do_Count (orm (example_repo 7)) (Model (getPreWarmDbForSelect (example_repo 7) ''ctx'' [])) = (7, None)"
    by (simp add: example_defs)
  show ?thesis
    using FindPagedWithLimit_page_count[OF s d, of 3 "\<lambda>x. 0"]
          FindPagedWithLimit_page_count[OF s d, of "- 5" "\<lambda>x. 0"] c s d
    by simp
qed

text \<open>
  \<^bold>\<open>C1, as stated, fails.\<close>  With a requested size of \<open>2^53 + 1\<close> the data query is made
  with \<open>LIMIT 2^53\<close>: the size passes through \<open>float64\<close> on its way to \<open>Limit\<close>.  The
  effective page size is \<open>2^53 + 1\<close>.
\<close>

theorem FindPagedWithLimit_data_query_counterexample:
  "fst (FindPagedWithLimit (\<lambda>x. 0) (example_repo 7) ''ctx''
          \<lparr>PageConfig.Page = 0, Size = 9007199254740993, IgnoreCount = True, ForceCount = False\<rparr> [])
     = [FindCall (example_db\<lparr>stmt_context := Some ''ctx'',
                     stmt_limit := Some 9007199254740992, stmt_offset := Some 0\<rparr>)]
   \<and> max 1 (Size \<lparr>PageConfig.Page = 0, Size = 9007199254740993, IgnoreCount = True, ForceCount = False\<rparr>)
       = 9007199254740993"
proof -
  have "int64_of_f64 (\<lambda>x. 0) 9007199254740992 = 9007199254740992"
    using int64_of_f64_of_int[of 9007199254740992 "\<lambda>x. 0"] by simp
  then show ?thesis
    by (simp add: FindPagedWithLimit_def Let_def shouldCount_def minLimit_def math_Max_def
        f64_of_int_example getPreWarmDbForSelect_def WithContext_def Limit_def Offset_def
        example_defs)
qed

text \<open>
  \<^bold>\<open>C1, amended.\<close>  For every PageConfig whose size is at most \<open>2^53\<close> and every
  specification list, the result of FindPagedWithLimit echoes the page number.  When the
  count query is made and fails, no data query is made, and the result has no data and
  the count's error.  Otherwise exactly one data query is made, after the count if there
  is one, on a statement that has the caller's context and the specifications and to
  which \<open>Limit\<close> was handed the requested size clamped to a minimum of \<open>1\<close> and \<open>Offset\<close> the
  raw page number (not page times size); when that query succeeds the result carries the
  fetched models, as they are, and no error, and when it fails no data and its error.
\<close>

theorem FindPagedWithLimit_data_query:
  assumes "Size pageCfg \<le> 2 ^ 53"
  shows "let dbPrewarm = getPreWarmDbForSelect r ctx specifications;
             out = FindPagedWithLimit impl r ctx pageCfg specifications
         in PageResult.Page (fst (snd out)) = PageConfig.Page pageCfg
            \<and> ((\<exists>n err. shouldCount pageCfg
                      \<and> do_Count (orm r) (Model dbPrewarm) = (n, Some err))
                 \<longrightarrow> (\<forall>st. FindCall st \<notin> set (fst out))
                     \<and> Data (fst (snd out)) = []
                     \<and> snd (snd out) = snd (do_Count (orm r) (Model dbPrewarm)))
            \<and> (\<not> (\<exists>n err. shouldCount pageCfg
                      \<and> do_Count (orm r) (Model dbPrewarm) = (n, Some err))
                 \<longrightarrow> (\<exists>calls st. fst out = calls @ [FindCall st]
                       \<and> (\<forall>c \<in> set calls. \<exists>st'. c = CountCall st')
                       \<and> stmt_limit st = Some (max 1 (Size pageCfg))
                       \<and> stmt_offset st = Some (PageConfig.Page pageCfg)
                       \<and> stmt_context st = Some ctx
                       \<and> stmt_wheres st = stmt_wheres (db r)
                            @ map (\<lambda>s. Cond (GetQuery s) (GetValues s)) specifications
                       \<and> (\<forall>models. do_Find (orm r) st = (models, None)
                             \<longrightarrow> Data (fst (snd out)) = models \<and> snd (snd out) = None)
                       \<and> (\<forall>models err. do_Find (orm r) st = (models, Some err)
                             \<longrightarrow> Data (fst (snd out)) = [] \<and> snd (snd out) = Some err)))"
proof -
  define dbPrewarm where "dbPrewarm = getPreWarmDbForSelect r ctx specifications"
  define st where "st = Offset (PageConfig.Page pageCfg)
                          (Limit (int64_of_f64 impl (minLimit pageCfg)) dbPrewarm)"
  define out where "out = FindPagedWithLimit impl r ctx pageCfg specifications"
  have fields: "stmt_limit st = Some (max 1 (Size pageCfg))"
    "stmt_offset st = Some (PageConfig.Page pageCfg)"
    "stmt_context st = Some ctx"
    "stmt_wheres st = stmt_wheres (db r)
       @ map (\<lambda>s. Cond (GetQuery s) (GetValues s)) specifications"
    using page_limit_exact[OF assms, of impl]
    by (simp_all add: st_def dbPrewarm_def getPreWarmDbForSelect_eq Limit_def Offset_def)
  have page: "PageResult.Page (fst (snd out)) = PageConfig.Page pageCfg"
    by (simp add: out_def FindPagedWithLimit_def Let_def split: prod.splits option.splits)
  have failed: "(\<forall>st. FindCall st \<notin> set (fst out)) \<and> Data (fst (snd out)) = []
      \<and> snd (snd out) = snd (do_Count (orm r) (Model dbPrewarm))"
    if "shouldCount pageCfg" "do_Count (orm r) (Model dbPrewarm) = (n, Some err)" for n err
    using that by (simp add: out_def FindPagedWithLimit_def Let_def dbPrewarm_def)
  have made: "\<exists>calls. fst out = calls @ [FindCall st]
      \<and> (\<forall>c \<in> set calls. \<exists>st'. c = CountCall st')
      \<and> (\<forall>models. do_Find (orm r) st = (models, None)
             \<longrightarrow> Data (fst (snd out)) = models \<and> snd (snd out) = None)
      \<and> (\<forall>models err. do_Find (orm r) st = (models, Some err)
             \<longrightarrow> Data (fst (snd out)) = [] \<and> snd (snd out) = Some err)"
    if "\<not> (\<exists>n err. shouldCount pageCfg \<and> do_Count (orm r) (Model dbPrewarm) = (n, Some err))"
  proof (cases "shouldCount pageCfg")
    case True
    with that obtain n where "do_Count (orm r) (Model dbPrewarm) = (n, None)"
      by (cases "do_Count (orm r) (Model dbPrewarm)") (auto split: option.splits)
    with True show ?thesis
      by (auto simp: out_def FindPagedWithLimit_def Let_def dbPrewarm_def st_def
          split: prod.splits option.splits)
  next
    case False
    then show ?thesis
      by (auto simp: out_def FindPagedWithLimit_def Let_def dbPrewarm_def st_def
          split: prod.splits option.splits)
  qed
  show ?thesis
    unfolding Let_def dbPrewarm_def[symmetric] out_def[symmetric]
    using page failed made fields by blast
qed

theorem FindPagedWithLimit_data_query_witness:
  "Size \<lparr>PageConfig.Page = 2, Size = 10, IgnoreCount = False, ForceCount = True\<rparr> \<le> 2 ^ 53
   \<and> \<not> (\<exists>n err. do_Count (orm (example_repo 7))
          (Model (getPreWarmDbForSelect (example_repo 7) ''ctx''
             [\<lparr>GetQuery = ''age > ?'', GetValues = [18]\<rparr>])) = (n, Some err))
   \<and> (\<exists>calls st. fst (FindPagedWithLimit (\<lambda>x. 0) (example_repo 7) ''ctx''
          \<lparr>PageConfig.Page = 2, Size = 10, IgnoreCount = False, ForceCount = True\<rparr>
          [\<lparr>GetQuery = ''age > ?'', GetValues = [18]\<rparr>]) = calls @ [FindCall st]
        \<and> stmt_limit st = Some 10 \<and> stmt_offset st = Some 2
        \<and> stmt_context st = Some ''ctx'' \<and> stmt_wheres st = [Cond ''age > ?'' [18]])
   \<and> Data (fst (snd (FindPagedWithLimit (\<lambda>x. 0) (example_repo 7) ''ctx''
          \<lparr>PageConfig.Page = 2, Size = 10, IgnoreCount = False, ForceCount = True\<rparr>
          [\<lparr>GetQuery = ''age > ?'', GetValues = [18]\<rparr>]))) = [4, 5]
   \<and> PageResult.Page (fst (snd (FindPagedWithLimit (\<lambda>x. 0) (example_repo 7) ''ctx''
          \<lparr>PageConfig.Page = 2, Size = 10, IgnoreCount = False, ForceCount = True\<rparr>
          [\<lparr>GetQuery = ''age > ?'', GetValues = [18]\<rparr>]))) = 2
   \<and> shouldCount \<lparr>PageConfig.Page = 2, Size = 10, IgnoreCount = False, ForceCount = True\<rparr>
   \<and> do_Count (orm ((example_repo 7)\<lparr>orm := (example_orm 7)\<lparr>do_Count := \<lambda>st. (0, Some ''down'')\<rparr>\<rparr>))
         (Model (getPreWarmDbForSelect
            ((example_repo 7)\<lparr>orm := (example_orm 7)\<lparr>do_Count := \<lambda>st. (0, Some ''down'')\<rparr>\<rparr>)
            ''ctx'' [])) = (0, Some ''down'')
   \<and> (\<forall>st. FindCall st \<notin> set (fst (FindPagedWithLimit (\<lambda>x. 0)
          ((example_repo 7)\<lparr>orm := (example_orm 7)\<lparr>do_Count := \<lambda>st. (0, Some ''down'')\<rparr>\<rparr>) ''ctx''
          \<lparr>PageConfig.Page = 2, Size = 10, IgnoreCount = False, ForceCount = True\<rparr> [])))
   \<and> snd (snd (FindPagedWithLimit (\<lambda>x. 0)
          ((example_repo 7)\<lparr>orm := (example_orm 7)\<lparr>do_Count := \<lambda>st. (0, Some ''down'')\<rparr>\<rparr>) ''ctx''
          \<lparr>PageConfig.Page = 2, Size = 10, IgnoreCount = False, ForceCount = True\<rparr> []))
       = Some ''down''"
proof -
  have sz: "Size \<lparr>PageConfig.Page = 2, Size = 10, IgnoreCount = False, ForceCount = True\<rparr> \<le> 2 ^ 53"
    by simp
  have nofail: "\<not> (\<exists>n err. P n err \<and> do_Count (orm (example_repo 7)) s = (n, Some err))"
    for P s by (simp add: example_defs)
  have find: "do_Find (orm (example_repo 7)) s = ([4, 5], None)" for s
    by (simp add: example_defs)
  have wh: "stmt_wheres (db (example_repo 7)) = []" by (simp add: example_defs)
  have ok: "\<not> (\<exists>n err. do_Count (orm (example_repo 7))
          (Model (getPreWarmDbForSelect (example_repo 7) ''ctx''
             [\<lparr>GetQuery = ''age > ?'', GetValues = [18]\<rparr>])) = (n, Some err))
     \<and> (\<exists>calls st. fst (FindPagedWithLimit (\<lambda>x. 0) (example_repo 7) ''ctx''
          \<lparr>PageConfig.Page = 2, Size = 10, IgnoreCount = False, ForceCount = True\<rparr>
          [\<lparr>GetQuery = ''age > ?'', GetValues = [18]\<rparr>]) = calls @ [FindCall st]
        \<and> stmt_limit st = Some 10 \<and> stmt_offset st = Some 2
        \<and> stmt_context st = Some ''ctx'' \<and> stmt_wheres st = [Cond ''age > ?'' [18]])
     \<and> Data (fst (snd (FindPagedWithLimit (\<lambda>x. 0) (example_repo 7) ''ctx''
          \<lparr>PageConfig.Page = 2, Size = 10, IgnoreCount = False, ForceCount = True\<rparr>
          [\<lparr>GetQuery = ''age > ?'', GetValues = [18]\<rparr>]))) = [4, 5]
     \<and> PageResult.Page (fst (snd (FindPagedWithLimit (\<lambda>x. 0) (example_repo 7) ''ctx''
          \<lparr>PageConfig.Page = 2, Size = 10, IgnoreCount = False, ForceCount = True\<rparr>
          [\<lparr>GetQuery = ''age > ?'', GetValues = [18]\<rparr>]))) = 2"
    using FindPagedWithLimit_data_query[OF sz, of "example_repo 7" "''ctx''"
            "[\<lparr>GetQuery = ''age > ?'', GetValues = [18]\<rparr>]" "\<lambda>x. 0"]
    unfolding Let_def
    using nofail find wh sz
    by (auto simp: example_defs)
  have sc: "shouldCount \<lparr>PageConfig.Page = 2, Size = 10, IgnoreCount = False, ForceCount = True\<rparr>"
    by (simp add: shouldCount_def)
  have down: "do_Count (orm ((example_repo 7)\<lparr>orm := (example_orm 7)\<lparr>do_Count := \<lambda>st. (0, Some ''down'')\<rparr>\<rparr>)) s
      = (0, Some ''down'')" for s
    by simp
  have failed: "(\<forall>st. FindCall st \<notin> set (fst (FindPagedWithLimit (\<lambda>x. 0)
          ((example_repo 7)\<lparr>orm := (example_orm 7)\<lparr>do_Count := \<lambda>st. (0, Some ''down'')\<rparr>\<rparr>) ''ctx''
          \<lparr>PageConfig.Page = 2, Size = 10, IgnoreCount = False, ForceCount = True\<rparr> [])))
     \<and> snd (snd (FindPagedWithLimit (\<lambda>x. 0)
          ((example_repo 7)\<lparr>orm := (example_orm 7)\<lparr>do_Count := \<lambda>st. (0, Some ''down'')\<rparr>\<rparr>) ''ctx''
          \<lparr>PageConfig.Page = 2, Size = 10, IgnoreCount = False, ForceCount = True\<rparr> []))
       = Some ''down''"
    using FindPagedWithLimit_data_query[OF sz,
            of "(example_repo 7)\<lparr>orm := (example_orm 7)\<lparr>do_Count := \<lambda>st. (0, Some ''down'')\<rparr>\<rparr>"
            "''ctx''" "[]" "\<lambda>x. 0"]
    unfolding Let_def using sc down by auto
  show ?thesis using sz ok sc down failed by blast
qed

subsection \<open>Specifications\<close>

text \<open>
  \<^bold>\<open>C4.\<close> For every sequence of specifications, getPreWarmDbForSelect adds one \<open>Where\<close>
  condition per specification to the handle with the context, in the order supplied,
  each with its own bound values: nothing is dropped, merged or reordered, the bound
  values of the statement are those of the specifications concatenated in order, and a
  row is selected exactly when every specification holds of it.  For \<open>[s1, s2]\<close> the
  statement is the one filtered by \<open>s1 AND s2\<close>.
\<close>

theorem getPreWarmDbForSelect_applies_in_order:
  "getPreWarmDbForSelect r ctx specifications
     = (db r)\<lparr>stmt_context := Some ctx,
         stmt_wheres := stmt_wheres (db r)
            @ map (\<lambda>s. Cond (GetQuery s) (GetValues s)) specifications\<rparr>
   \<and> length (stmt_wheres (getPreWarmDbForSelect r ctx specifications))
       = length (stmt_wheres (db r)) + length specifications
   \<and> bound_values (getPreWarmDbForSelect r ctx specifications)
       = bound_values (db r) @ concat (map GetValues specifications)
   \<and> (selects holds (getPreWarmDbForSelect r ctx specifications) row
        \<longleftrightarrow> (selects holds (db r) row
             \<and> list_all (\<lambda>s. holds (Cond (GetQuery s) (GetValues s)) row) specifications))
   \<and> getPreWarmDbForSelect r ctx [s1, s2]
       = Where (Cond (GetQuery s2) (GetValues s2))
           (Where (Cond (GetQuery s1) (GetValues s1)) (WithContext ctx (db r)))
   \<and> bound_values (getPreWarmDbForSelect r ctx [s1, s2])
       = bound_values (db r) @ GetValues s1 @ GetValues s2
   \<and> (selects holds (getPreWarmDbForSelect r ctx [s1, s2]) row
        \<longleftrightarrow> (selects holds (db r) row
             \<and> holds (Cond (GetQuery s1) (GetValues s1)) row
             \<and> holds (Cond (GetQuery s2) (GetValues s2)) row))"
  by (simp add: getPreWarmDbForSelect_eq bound_values_def selects_def comp_def
      list.pred_map Where_def WithContext_def)

theorem getPreWarmDbForSelect_applies_in_order_witness:
  "stmt_wheres (getPreWarmDbForSelect (example_repo 7) ''ctx''
      [\<lparr>GetQuery = ''age > ?'', GetValues = [18]\<rparr>,
       \<lparr>GetQuery = ''id IN (?, ?)'', GetValues = [3, 9]\<rparr>,
       \<lparr>GetQuery = ''age > ?'', GetValues = [18]\<rparr>])
     = [Cond ''age > ?'' [18], Cond ''id IN (?, ?)'' [3, 9], Cond ''age > ?'' [18]]
   \<and> bound_values (getPreWarmDbForSelect (example_repo 7) ''ctx''
      [\<lparr>GetQuery = ''age > ?'', GetValues = [18]\<rparr>,
       \<lparr>GetQuery = ''id IN (?, ?)'', GetValues = [3, 9]\<rparr>,
       \<lparr>GetQuery = ''age > ?'', GetValues = [18]\<rparr>]) = [18, 3, 9, 18]"
  using getPreWarmDbForSelect_applies_in_order[of "example_repo 7" "''ctx''"
      "[\<lparr>GetQuery = ''age > ?'', GetValues = [18]\<rparr>,
        \<lparr>GetQuery = ''id IN (?, ?)'', GetValues = [3, 9]\<rparr>,
        \<lparr>GetQuery = ''age > ?'', GetValues = [18]\<rparr>]"]
  by (simp add: example_defs bound_values_def getPreWarmDbForSelect_eq)

subsection \<open>Find, FindPaged and FindAll\<close>

text \<open>
  \<^bold>\<open>C6.\<close> Find and FindPaged give the same result for every context and specification
  list: that of FindWithLimit with limit \<open>-1\<close>, offset \<open>-1\<close> and the same specifications,
  which makes one \<open>Find\<close> call with these specifications and returns the entities of the
  rows found.  FindAll is FindWithLimit with limit \<open>-1\<close>, offset \<open>-1\<close> and no specification.
\<close>

theorem Find_FindPaged_FindAll:
  "Find r ctx specifications = FindPaged r ctx specifications
   \<and> Find r ctx specifications = FindWithLimit r ctx (- 1) (- 1) specifications
   \<and> FindPaged r ctx specifications = FindWithLimit r ctx (- 1) (- 1) specifications
   \<and> FindAll r ctx = FindWithLimit r ctx (- 1) (- 1) []
   \<and> FindWithLimit r ctx (- 1) (- 1) specifications
       = (let stmt = (getPreWarmDbForSelect r ctx specifications)
                       \<lparr>stmt_limit := Some (- 1), stmt_offset := Some (- 1)\<rparr>
          in ([FindCall stmt],
              case do_Find (orm r) stmt of
                (models, Some err) \<Rightarrow> ([], Some err)
              | (models, None) \<Rightarrow> (map (ToEntity (conv r)) models, None)))"
  by (simp add: Find_def FindPaged_def FindAll_def FindWithLimit_def Let_def Limit_def
      Offset_def fold_append_entities split: sum.splits prod.splits option.splits)

subsection \<open>The unchecked assertion of Insert, Update and Delete\<close>

text \<open>
  \<^bold>\<open>C9.\<close> Insert, Update and Delete assert the result of \<open>FromEntity\<close> to the model type
  without a check.  When that result has the model type the assertion succeeds and the
  operation goes on to its \<open>Create\<close>, \<open>Save\<close> or \<open>Delete\<close> call with the model.  When it has
  not, each of the three panics: no error is returned, and a panic has no other cause.
  MapDto's checked assertion yields the zero value instead.
\<close>

theorem Insert_Update_Delete_assertion:
  "(assertM (conv r1) (FromEntity (conv r1) e1) = Some model1 \<longrightarrow>
      (\<exists>res. Insert r1 ctx1 e1 = Return ([CreateCall (WithContext ctx1 (db r1)) (Inr model1)], res))
    \<and> (\<exists>res. Update r1 ctx1 e1 = Return ([SaveCall (WithContext ctx1 (db r1)) model1], res))
    \<and> (\<exists>res. Delete r1 ctx1 e1 = Return ([DeleteCall (WithContext ctx1 (db r1)) model1 None], res)))
   \<and> (assertM (conv r2) (FromEntity (conv r2) e2) = None \<longrightarrow>
      Insert r2 ctx2 e2 = Panic \<and> Update r2 ctx2 e2 = Panic \<and> Delete r2 ctx2 e2 = Panic)
   \<and> (Insert r3 ctx3 e3 = Panic \<or> Update r3 ctx3 e3 = Panic \<or> Delete r3 ctx3 e3 = Panic
        \<longrightarrow> assertM (conv r3) (FromEntity (conv r3) e3) = None)
   \<and> (assertT (ToEntity gm ce) = None \<longrightarrow> MapDto_conv gm assertT zeroT ce = zeroT)"
  by (auto simp: Insert_def Update_def Delete_def Let_def MapDto_conv_def
      split: option.splits sum.splits)

theorem Insert_Update_Delete_assertion_witness:
  "assertM (conv (example_repo 7)) (FromEntity (conv (example_repo 7)) 103) = Some 3
   \<and> Insert (example_repo 7) ''ctx'' 103
       = Return ([CreateCall (example_db\<lparr>stmt_context := Some ''ctx''\<rparr>) (Inr 3)], 104, None)
   \<and> Update (example_repo 7) ''ctx'' 103
       = Return ([SaveCall (example_db\<lparr>stmt_context := Some ''ctx''\<rparr>) 3], 103, None)
   \<and> Delete (example_repo 7) ''ctx'' 103
       = Return ([DeleteCall (example_db\<lparr>stmt_context := Some ''ctx''\<rparr>) 3 None], None)
   \<and> assertM (conv (example_repo 7)) (FromEntity (conv (example_repo 7)) 170) = None
   \<and> Insert (example_repo 7) ''ctx'' 170 = Panic
   \<and> Update (example_repo 7) ''ctx'' 170 = Panic
   \<and> Delete (example_repo 7) ''ctx'' 170 = Panic"
  using Insert_Update_Delete_assertion[of "example_repo 7" 103 3 "''ctx''"
          "example_repo 7" 170 "''ctx''"]
  by (simp add: Insert_def Update_def Delete_def Let_def WithContext_def example_defs)

subsection \<open>The context argument\<close>

text \<open>
  Every method but three makes each of its calls on a handle that carries the context it
  was given.
\<close>

lemma context_forwarded_elsewhere:
  "(\<forall>c \<in> set (fst (InsertDirect r ctx m)). stmt_context (call_stmt c) = Some ctx)
   \<and> (\<forall>c \<in> set (fst (InsertFromInterface r ctx a)). stmt_context (call_stmt c) = Some ctx)
   \<and> (\<forall>c \<in> set (fst (DeleteById r ctx a)). stmt_context (call_stmt c) = Some ctx)
   \<and> (\<forall>c \<in> set (fst (UpdateDirect r ctx m)). stmt_context (call_stmt c) = Some ctx)
   \<and> (\<forall>c \<in> set (fst (FindByID r ctx a)). stmt_context (call_stmt c) = Some ctx)
   \<and> (\<forall>c \<in> set (fst (FindByIDWithOptions r ctx a b)). stmt_context (call_stmt c) = Some ctx)
   \<and> (\<forall>c \<in> set (fst (FindByModel r ctx m)). stmt_context (call_stmt c) = Some ctx)
   \<and> (\<forall>c \<in> set (fst (FindWithLimit r ctx l off specs)). stmt_context (call_stmt c) = Some ctx)
   \<and> (\<forall>c \<in> set (fst (Find r ctx specs)). stmt_context (call_stmt c) = Some ctx)
   \<and> (\<forall>c \<in> set (fst (FindPaged r ctx specs)). stmt_context (call_stmt c) = Some ctx)
   \<and> (\<forall>c \<in> set (fst (FindAll r ctx)). stmt_context (call_stmt c) = Some ctx)
   \<and> (\<forall>c \<in> set (fst (Count' r ctx specs)). stmt_context (call_stmt c) = Some ctx)
   \<and> (\<forall>c \<in> set (fst (FindPagedWithLimit impl r ctx cfg specs)).
          stmt_context (call_stmt c) = Some ctx)
   \<and> (\<forall>calls res. Insert r ctx e = Return (calls, res)
          \<longrightarrow> (\<forall>c \<in> set calls. stmt_context (call_stmt c) = Some ctx))
   \<and> (\<forall>calls res. Update r ctx e = Return (calls, res)
          \<longrightarrow> (\<forall>c \<in> set calls. stmt_context (call_stmt c) = Some ctx))
   \<and> (\<forall>calls res. Delete r ctx e = Return (calls, res)
          \<longrightarrow> (\<forall>c \<in> set calls. stmt_context (call_stmt c) = Some ctx))"
proof (intro conjI)
  show "\<forall>c \<in> set (fst (FindPagedWithLimit impl r ctx cfg specs)).
          stmt_context (call_stmt c) = Some ctx"
    by (auto simp: FindPagedWithLimit_def Let_def getPreWarmDbForSelect_eq Limit_def
        Offset_def Model_def split: prod.splits option.splits)
qed (auto simp: InsertDirect_def InsertFromInterface_def DeleteById_def UpdateDirect_def
      FindByID_def FindByIDWithOptions_def FindByModel_def FindWithLimit_def Find_def
      FindPaged_def FindAll_def Count'_def Insert_def Update_def
      Delete_def Let_def getPreWarmDbForSelect_eq Where_def Preload_def WithContext_def
      Limit_def Offset_def Model_def split: sum.splits prod.splits option.splits)

text \<open>
  \<^bold>\<open>C7 fails on the code.\<close>  FindByModelMulti, FindByEntity and FindByEntityWithOptions
  take a context and build their query on \<open>r.db\<close> itself, without \<open>WithContext\<close>: on the
  example repository, whose handle has no context, the call they make carries none.
  FindByModel, next to them, forwards it.
\<close>

theorem context_not_forwarded:
  "map (stmt_context \<circ> call_stmt) (fst (FindByModelMulti (example_repo 7) ''ctx'' 4)) = [None]
   \<and> map (stmt_context \<circ> call_stmt) (fst (FindByEntity (example_repo 7) ''ctx'' 4)) = [None]
   \<and> map (stmt_context \<circ> call_stmt) (fst (FindByEntityWithOptions (example_repo 7) ''ctx'' 4 True))
       = [None]
   \<and> map (stmt_context \<circ> call_stmt) (fst (FindByModel (example_repo 7) ''ctx'' 4)) = [Some ''ctx'']"
  by (simp add: FindByModelMulti_def FindByEntity_def FindByEntityWithOptions_def FindByModel_def
      Let_def Where_def Preload_def WithContext_def example_defs)

end
